theory Spec2Isabelle
  imports Complex_Main "HOL-Library.Multiset"
begin

section \<open>Picard solver of Hermes2D: the Anderson mixer\<close>

text \<open>
  The development follows \<^verbatim>\<open>hermes2d/src/solver/picard_solver.cpp\<close>. The class is a
  template over \<^verbatim>\<open>Scalar\<close>, instantiated for \<^verbatim>\<open>double\<close> and
  complex \<^verbatim>\<open>double\<close>; the model is polymorphic over a real normed field, with
  \<^typ>\<open>real\<close> and \<^typ>\<open>complex\<close> as the two instances. The inner products, the
  mixing and the norms are written in exact field arithmetic: the theorems about them say
  which formula is computed. Two places are modelled closer to binary64. The closing
  loop of \<^verbatim>\<open>calculate_anderson_coeffs\<close>, where the question is whether a sum is exactly
  one, rounds each addition and the final subtraction. The division that yields the
  relative error, where IEEE special values decide the control flow, has these values.

  The \<^verbatim>\<open>int\<close> variables are unbounded integers: none of them can leave the range of
  \<^verbatim>\<open>int\<close>, since \<open>it\<close> stays below \<^verbatim>\<open>max_iter\<close> while the loop goes on and
  \<open>vec_in_memory\<close> stops at \<^verbatim>\<open>num_last_vectors_used\<close>.

  Arrays are lists. An array is read with \<open>!\<close> only at indices which the allocation in
  \<^verbatim>\<open>solve\<close> makes valid (\<^verbatim>\<open>num_last_vectors_used\<close> history vectors with \<^verbatim>\<open>ndof\<close> entries
  each, \<^verbatim>\<open>num_last_vectors_used - 1\<close> coefficients); theorems that need these sizes
  assume them.
\<close>

text \<open>
  The exceptions, one constructor for each \<^verbatim>\<open>throw\<close>: the one in \<^verbatim>\<open>isOkay\<close>; the one
  of \<^verbatim>\<open>check()\<close> when \<^verbatim>\<open>isOkay\<close> returns false; the one at the top of
  \<^verbatim>\<open>calculate_anderson_coeffs\<close>; and the two in \<^verbatim>\<open>solve\<close>, after a failed linear
  solve and at the iteration limit.
\<close>

datatype picard_exception =
    Bad_number_of_last_iterations
  | Instance_not_okay
  | Anderson_needs_two_iterations
  | LinearMatrixSolverException
  | Maximum_iterations_exceeded

text \<open>
  What this file takes from outside is gathered in one record of parameters:
  \<^item> \<open>ludcmp\<close>, \<open>lubksb\<close>: the dense routines. \<^verbatim>\<open>ludcmp(mat, n, perm, &d)\<close> overwrites
    \<^verbatim>\<open>mat\<close> and fills \<^verbatim>\<open>perm\<close>; \<^verbatim>\<open>lubksb(mat, n, perm, rhs)\<close> overwrites \<^verbatim>\<open>rhs\<close>
    with the solution;
  \<^item> \<open>to_double\<close>: the cast \<^verbatim>\<open>*(double* )(&val)\<close>, which reads the first \<^verbatim>\<open>double\<close>
    of a \<^verbatim>\<open>Scalar\<close>: the value itself for \<^verbatim>\<open>double\<close>, the real part for complex
    \<^verbatim>\<open>double\<close>;
  \<^item> \<open>round_scalar\<close>: the rounding of an exact sum or difference to a \<^verbatim>\<open>Scalar\<close>: to
    the nearest binary64 number, ties to even, for \<^verbatim>\<open>double\<close> (\<open>binary64_round\<close>
    below), and the same on both parts for complex \<^verbatim>\<open>double\<close>;
  \<^item> \<open>nonlinear_solver_isOkay\<close>: the result of the base class's \<^verbatim>\<open>isOkay()\<close>;
  \<^item> \<open>num_dofs\<close>: \<^verbatim>\<open>Space::get_num_dofs(dp->get_spaces())\<close>;
  \<^item> \<open>matrix_solve\<close>: assembling at \<^verbatim>\<open>last_iter_vector\<close> and calling
    \<^verbatim>\<open>matrix_solver->solve()\<close> in iteration \<open>it\<close> under the factorization scheme just
    set: \<open>None\<close> when \<^verbatim>\<open>solve()\<close> returns false, otherwise the array behind
    \<^verbatim>\<open>get_sln_vector()\<close>.
  The hooks (\<^verbatim>\<open>on_step_begin\<close>, \<^verbatim>\<open>on_step_end\<close>, \<^verbatim>\<open>on_initialization\<close>,
  \<^verbatim>\<open>process_matrix_output\<close>, \<^verbatim>\<open>tick\<close>) do not touch the variables of this file and
  are left out.
\<close>

datatype factorization_scheme =
    HERMES_FACTORIZE_FROM_SCRATCH
  | HERMES_REUSE_MATRIX_REORDERING_AND_SCALING
  | HERMES_REUSE_FACTORIZATION_COMPLETELY

record 'a environment =
  ludcmp :: "real list list \<Rightarrow> nat \<Rightarrow> real list list \<times> int list"
  lubksb :: "real list list \<Rightarrow> nat \<Rightarrow> int list \<Rightarrow> 'a list \<Rightarrow> 'a list"
  to_double :: "'a \<Rightarrow> real"
  round_scalar :: "'a \<Rightarrow> 'a"
  nonlinear_solver_isOkay :: bool
  num_dofs :: nat
  matrix_solve :: "int \<Rightarrow> factorization_scheme \<Rightarrow> 'a list \<Rightarrow> 'a list option"

text \<open>
  Rounding to binary64, to the nearest with ties to even: a number other than zero is
  rounded to a multiple of the spacing of its binade, \<open>2\<^sup>e\<^sup>-\<^sup>5\<^sup>2\<close> with \<open>e\<close> the exponent
  (not below \<open>-1022\<close>, where the subnormal numbers begin). Overflow is not modelled.
\<close>

definition round_half_even :: "real \<Rightarrow> int" where
  "round_half_even r =
     (let f = \<lfloor>r\<rfloor>
      in if r - of_int f < 1 / 2 then f
         else if 1 / 2 < r - of_int f then f + 1
         else if even f then f else f + 1)"

definition binary64_round :: "real \<Rightarrow> real" where
  "binary64_round x =
     (if x = 0 then 0
      else
        let e = max \<lfloor>log 2 \<bar>x\<bar>\<rfloor> (- 1022);
            ulp = 2 powi (e - 52)
        in of_int (round_half_even (x / ulp)) * ulp)"

definition residual :: "'a::real_normed_field list list \<Rightarrow> nat \<Rightarrow> nat \<Rightarrow> 'a" where
  "residual previous_vectors i k = previous_vectors ! (i + 1) ! k - previous_vectors ! i ! k"

definition rhs_entry :: "'a::real_normed_field list list \<Rightarrow> nat \<Rightarrow> nat \<Rightarrow> nat \<Rightarrow> 'a" where
  "rhs_entry previous_vectors n ndof i =
     foldl (\<lambda>acc k.
        let residual_n_k = residual previous_vectors n k;
            residual_i_k = residual previous_vectors i k
        in acc + residual_n_k * (residual_n_k - residual_i_k)) 0 [0..<ndof]"

definition mat_val :: "'a::real_normed_field list list \<Rightarrow> nat \<Rightarrow> nat \<Rightarrow> nat \<Rightarrow> nat \<Rightarrow> 'a" where
  "mat_val previous_vectors n ndof i j =
     foldl (\<lambda>val k.
        let residual_n_k = residual previous_vectors n k;
            residual_i_k = residual previous_vectors i k;
            residual_j_k = residual previous_vectors j k
        in val + (residual_n_k - residual_i_k) * (residual_n_k - residual_j_k)) 0 [0..<ndof]"

definition anderson_rhs :: "'a::real_normed_field list list \<Rightarrow> nat \<Rightarrow> nat \<Rightarrow> 'a list" where
  "anderson_rhs previous_vectors n ndof = map (rhs_entry previous_vectors n ndof) [0..<n]"

definition anderson_mat ::
  "('a \<Rightarrow> real) \<Rightarrow> 'a::real_normed_field list list \<Rightarrow> nat \<Rightarrow> nat \<Rightarrow> real list list" where
  "anderson_mat cast previous_vectors n ndof =
     map (\<lambda>i. map (\<lambda>j. cast (mat_val previous_vectors n ndof i j)) [0..<n]) [0..<n]"

text \<open>
  The closing loop of \<^verbatim>\<open>calculate_anderson_coeffs\<close>: copy the \<open>n\<close> solved values into the
  coefficient array and accumulate their sum; \<^verbatim>\<open>sum += rhs[i]\<close> rounds.
\<close>

definition copy_coeffs ::
  "('a \<Rightarrow> 'a) \<Rightarrow> 'a::real_normed_field list \<Rightarrow> 'a list \<Rightarrow> nat \<Rightarrow> 'a list \<times> 'a" where
  "copy_coeffs rnd anderson_coeffs rhs n =
     foldl (\<lambda>(coeffs, sum) i. (coeffs[i := rhs ! i], rnd (sum + rhs ! i)))
       (anderson_coeffs, 0) [0..<n]"

definition calculate_anderson_coeffs ::
  "'a environment \<Rightarrow> 'a::real_normed_field list list \<Rightarrow> 'a list \<Rightarrow> int \<Rightarrow> nat
     \<Rightarrow> picard_exception + 'a list" where
  "calculate_anderson_coeffs env previous_vectors anderson_coeffs num_last_vectors_used ndof =
     (if num_last_vectors_used \<le> 1 then Inl Anderson_needs_two_iterations
      else if num_last_vectors_used = 2 then Inr (anderson_coeffs[0 := 1])
      else
        let n = nat (num_last_vectors_used - 2);
            rhs = anderson_rhs previous_vectors n ndof;
            mat = anderson_mat (to_double env) previous_vectors n ndof;
            (lu, perm) = ludcmp env mat n;
            x = lubksb env lu n perm rhs;
            (coeffs, sum) = copy_coeffs (round_scalar env) anderson_coeffs x n
        in Inr (coeffs[n := round_scalar env (1 - sum)]))"

text \<open>
  The mixing loops of \<^verbatim>\<open>solve\<close> (the new \<^verbatim>\<open>sln_vector\<close> from coefficients and history).
  \<^verbatim>\<open>1.0 - anderson_beta\<close> is a \<^verbatim>\<open>double\<close> multiplied into a \<^verbatim>\<open>Scalar\<close>.
\<close>

definition mixed_entry ::
  "'a::real_normed_field list list \<Rightarrow> 'a list \<Rightarrow> real \<Rightarrow> int \<Rightarrow> nat \<Rightarrow> 'a" where
  "mixed_entry previous_vectors anderson_coeffs anderson_beta num_last_vectors_used i =
     foldl (\<lambda>acc j. acc +
         (anderson_coeffs ! (j - 1) * previous_vectors ! j ! i
          - of_real (1 - anderson_beta) * anderson_coeffs ! (j - 1)
              * (previous_vectors ! j ! i - previous_vectors ! (j - 1) ! i)))
       0 [1..<nat num_last_vectors_used]"

definition anderson_mix ::
  "'a::real_normed_field list list \<Rightarrow> 'a list \<Rightarrow> real \<Rightarrow> int \<Rightarrow> nat \<Rightarrow> 'a list \<Rightarrow> 'a list" where
  "anderson_mix previous_vectors anderson_coeffs anderson_beta num_last_vectors_used ndof sln_vector =
     foldl (\<lambda>sln i.
        sln[i := mixed_entry previous_vectors anderson_coeffs anderson_beta num_last_vectors_used i])
       sln_vector [0..<ndof]"

section \<open>The solver instance and the variables of \<^verbatim>\<open>solve\<close>\<close>

text \<open>
  The members of \<^verbatim>\<open>PicardSolver\<close> that this file reads or writes. \<open>sln_vector\<close> is
  \<open>None\<close> for the \<^verbatim>\<open>NULL\<close> pointer. \<open>jacobian_reusable\<close> and \<open>constant_jacobian\<close> are
  inherited members: this file reads both and sets the first.
\<close>

record 'a picard_solver =
  tol :: real
  max_iter :: int
  num_last_vectors_used :: int
  anderson_beta :: real
  anderson_is_on :: bool
  sln_vector :: "'a list option"
  jacobian_reusable :: bool
  constant_jacobian :: bool

text \<open>
  The result of \<^verbatim>\<open>abs_error / last_iter_vec_norm\<close>. Dividing by zero does not trap in
  IEEE arithmetic: it yields an infinity, or NaN for \<open>0 / 0\<close>; every ordered comparison
  with NaN is false.
\<close>

datatype double = Finite real | Plus_infinity | Minus_infinity | NaN

definition double_div :: "real \<Rightarrow> real \<Rightarrow> double" where
  "double_div a b =
     (if b = 0 then (if a = 0 then NaN else if 0 < a then Plus_infinity else Minus_infinity)
      else Finite (a / b))"

fun double_less :: "double \<Rightarrow> real \<Rightarrow> bool" where
  "double_less (Finite r) t = (r < t)"
| "double_less Plus_infinity t = False"
| "double_less Minus_infinity t = True"
| "double_less NaN t = False"

fun double_times :: "double \<Rightarrow> real \<Rightarrow> double" where
  "double_times (Finite r) c = Finite (r * c)"
| "double_times d c = d"

text \<open>
  What \<^verbatim>\<open>solve\<close> does to the outside, in order: the calls to the assembler and the
  matrix solver, and the lines it logs.
\<close>

datatype event =
    Info_reusing_jacobian
  | Assemble_residual
  | Assemble_jacobian_and_residual
  | Set_factorization_scheme factorization_scheme
  | Matrix_solver_solve
  | Info_starting_from_zero_vector int nat
  | Info_relative_error int nat double
  | Info_solution_duration

text \<open>
  The arrays which \<^verbatim>\<open>solve\<close> allocates with \<^verbatim>\<open>new\<close>. The history vectors are numbered
  by their address. (The temporaries of \<^verbatim>\<open>calculate_anderson_coeffs\<close> are not tracked.)
\<close>

datatype allocation =
    Last_iter_vector
  | Previous_vectors_array
  | Previous_vector nat
  | Anderson_coeffs

text \<open>
  The local variables of \<^verbatim>\<open>solve\<close>. \<open>previous_vectors\<close> is the array of pointers, a list
  of addresses; \<open>heap\<close> gives the array stored at an address. Four fields are history
  variables with no counterpart in the source: \<open>trace\<close> (the events so far), \<open>iterates\<close>
  (the value of \<^verbatim>\<open>sln_vector\<close> at the end of each iteration's update, in order), \<open>allocated\<close>
  and \<open>freed\<close> (the arguments of \<^verbatim>\<open>new\<close> and \<^verbatim>\<open>delete []\<close> so far).
\<close>

record 'a locals =
  last_iter_vector :: "'a list"
  previous_vectors :: "nat list"
  heap :: "nat \<Rightarrow> 'a list"
  anderson_coeffs :: "'a list"
  it :: int
  vec_in_memory :: int
  trace :: "event list"
  iterates :: "'a list list"
  allocated :: "allocation list"
  freed :: "allocation list"

text \<open>How a call of \<^verbatim>\<open>solve\<close> ends: \<open>None\<close> is the normal return, \<open>Some e\<close> a throw.\<close>

record 'a run =
  outcome :: "picard_exception option"
  instance_after :: "'a picard_solver"
  locals_at_exit :: "'a locals option"

section \<open>Validation\<close>

definition isOkay :: "'a environment \<Rightarrow> 'a picard_solver \<Rightarrow> picard_exception + bool" where
  "isOkay env s =
     (if \<not> nonlinear_solver_isOkay env then Inr False
      else if num_last_vectors_used s < 1 then Inl Bad_number_of_last_iterations
      else Inr True)"

text \<open>
  Modelled from the spec: \<^verbatim>\<open>check()\<close>, which \<^verbatim>\<open>init_solving\<close> calls first, is declared
  outside this file. It is the validation step of the spec (fail with a configuration
  error when the configuration is not valid): it runs \<^verbatim>\<open>isOkay()\<close>, lets its exception
  through and raises when it returns false.
\<close>

definition check :: "'a environment \<Rightarrow> 'a picard_solver \<Rightarrow> picard_exception option" where
  "check env s =
     (case isOkay env s of
        Inl e \<Rightarrow> Some e
      | Inr ok \<Rightarrow> if ok then None else Some Instance_not_okay)"

definition init_solving ::
  "'a environment \<Rightarrow> 'a::real_normed_field picard_solver \<Rightarrow> nat \<Rightarrow> 'a list option
     \<Rightarrow> picard_exception + 'a picard_solver" where
  "init_solving env s ndof coeff_vec =
     (case check env s of
        Some e \<Rightarrow> Inl e
      | None \<Rightarrow>
          Inr (s\<lparr>sln_vector :=
                 Some (case coeff_vec of None \<Rightarrow> replicate ndof 0 | Some v \<Rightarrow> take ndof v)\<rparr>))"

section \<open>The history of iterates\<close>

text \<open>
  The shift of the pointer array when the memory is full: remember the first pointer, move
  every other one down by one place, put the remembered one last.
\<close>

definition shift_pointers :: "nat list \<Rightarrow> nat \<Rightarrow> nat list" where
  "shift_pointers pv m =
     (let oldest_vec = pv ! 0;
          pv' = foldl (\<lambda>p i. p[i := p ! (i + 1)]) pv [0..<m - 1]
      in pv'[m - 1 := oldest_vec])"

text \<open>
  Storing the new \<^verbatim>\<open>sln_vector\<close> in the memory. Every \<^verbatim>\<open>memcpy\<close> of this file copies
  \<^verbatim>\<open>ndof\<close> entries into an array of \<^verbatim>\<open>ndof\<close> entries, so the target becomes the first
  \<^verbatim>\<open>ndof\<close> entries of the source.
\<close>

definition store_vector ::
  "'a locals \<Rightarrow> int \<Rightarrow> nat \<Rightarrow> 'a list \<Rightarrow> 'a locals" where
  "store_vector l m ndof sln =
     (if vec_in_memory l < m then
        l\<lparr>heap := (heap l)(previous_vectors l ! nat (vec_in_memory l) := take ndof sln),
          vec_in_memory := vec_in_memory l + 1\<rparr>
      else
        let pv = shift_pointers (previous_vectors l) (nat m)
        in l\<lparr>previous_vectors := pv,
             heap := (heap l)(pv ! (nat m - 1) := take ndof sln)\<rparr>)"

text \<open>The vectors in the memory, oldest first, and all arrays behind the pointers.\<close>

definition stored :: "'a locals \<Rightarrow> 'a list list" where
  "stored l = map (heap l) (take (nat (vec_in_memory l)) (previous_vectors l))"

definition deref :: "'a locals \<Rightarrow> 'a list list" where
  "deref l = map (heap l) (previous_vectors l)"

section \<open>The iteration\<close>

text \<open>
  The variables of \<^verbatim>\<open>solve\<close> before the loop. \<^verbatim>\<open>new\<close> leaves the arrays uninitialised;
  the model fills them with zeros. The source writes every history vector and every
  coefficient before it reads it, so the filling is never observed. The history vectors
  get the addresses \<open>0, \<dots>, m - 1\<close>.
\<close>

definition setup_locals :: "'a::real_normed_field picard_solver \<Rightarrow> nat \<Rightarrow> 'a locals" where
  "setup_locals s ndof =
     (let m = nat (num_last_vectors_used s);
          l0 = \<lparr>last_iter_vector = take ndof (the (sln_vector s)),
                previous_vectors = [],
                heap = (\<lambda>a. []),
                anderson_coeffs = [],
                it = 1,
                vec_in_memory = 1,
                trace = [],
                iterates = [],
                allocated = [Last_iter_vector],
                freed = []\<rparr>
      in if anderson_is_on s then
           l0\<lparr>previous_vectors := [0..<m],
              heap := (\<lambda>a. replicate ndof 0)(0 := take ndof (the (sln_vector s))),
              anderson_coeffs := replicate (nat (num_last_vectors_used s - 1)) 0,
              allocated := [Last_iter_vector, Previous_vectors_array]
                             @ map Previous_vector [0..<m] @ [Anderson_coeffs]\<rparr>
         else l0)"

definition assemble_step ::
  "'a picard_solver \<Rightarrow> 'a locals \<Rightarrow> 'a picard_solver \<times> 'a locals \<times> factorization_scheme" where
  "assemble_step s l =
     (if jacobian_reusable s then
        (if constant_jacobian s then
           (s, l\<lparr>trace := trace l @ [Info_reusing_jacobian, Assemble_residual,
                    Set_factorization_scheme HERMES_REUSE_FACTORIZATION_COMPLETELY]\<rparr>,
            HERMES_REUSE_FACTORIZATION_COMPLETELY)
         else
           (s, l\<lparr>trace := trace l @
                    [Set_factorization_scheme HERMES_REUSE_MATRIX_REORDERING_AND_SCALING,
                     Assemble_jacobian_and_residual]\<rparr>,
            HERMES_REUSE_MATRIX_REORDERING_AND_SCALING))
      else
        (s\<lparr>jacobian_reusable := True\<rparr>,
         l\<lparr>trace := trace l @ [Assemble_jacobian_and_residual,
                  Set_factorization_scheme HERMES_FACTORIZE_FROM_SCRATCH]\<rparr>,
         HERMES_FACTORIZE_FROM_SCRATCH))"

text \<open>
  The first half of the loop body, up to the new \<^verbatim>\<open>sln_vector\<close>: assemble, solve, store
  in the memory, mix. The result is \<open>Some e\<close> with the state at the \<^verbatim>\<open>throw\<close>, or \<open>None\<close>
  with the state after the update.
\<close>

definition compute_candidate ::
  "'a environment \<Rightarrow> 'a::real_normed_field picard_solver \<Rightarrow> 'a locals
     \<Rightarrow> picard_exception option \<times> 'a picard_solver \<times> 'a locals" where
  "compute_candidate env s l =
     (let ndof = num_dofs env;
          m = num_last_vectors_used s;
          (s1, l1, scheme) = assemble_step s l;
          l2 = l1\<lparr>trace := trace l1 @ [Matrix_solver_solve]\<rparr>
      in case matrix_solve env (it l) scheme (last_iter_vector l) of
           None \<Rightarrow> (Some LinearMatrixSolverException, s1, l2)
         | Some x \<Rightarrow>
             let sln = take ndof x;
                 l3 = (if anderson_is_on s then store_vector l2 m ndof sln else l2)
             in if anderson_is_on s \<and> m \<le> vec_in_memory l3 then
                  (case calculate_anderson_coeffs env (deref l3) (anderson_coeffs l3) m ndof of
                     Inl e \<Rightarrow> (Some e, s1\<lparr>sln_vector := Some sln\<rparr>, l3)
                   | Inr coeffs \<Rightarrow>
                       let mixed = anderson_mix (deref l3) coeffs (anderson_beta s) m ndof sln
                       in (None, s1\<lparr>sln_vector := Some mixed\<rparr>,
                           l3\<lparr>anderson_coeffs := coeffs, iterates := iterates l3 @ [mixed]\<rparr>))
                else (None, s1\<lparr>sln_vector := Some sln\<rparr>, l3\<lparr>iterates := iterates l3 @ [sln]\<rparr>))"

text \<open>The error between \<^verbatim>\<open>last_iter_vector\<close> and \<^verbatim>\<open>sln_vector\<close>; \<^verbatim>\<open>std::abs\<close> is the norm.\<close>

definition last_iter_vec_norm :: "'a::real_normed_field list \<Rightarrow> nat \<Rightarrow> real" where
  "last_iter_vec_norm last_vec ndof =
     sqrt (foldl (\<lambda>acc i. acc + norm (last_vec ! i * last_vec ! i)) 0 [0..<ndof])"

definition abs_error :: "'a::real_normed_field list \<Rightarrow> 'a list \<Rightarrow> nat \<Rightarrow> real" where
  "abs_error sln last_vec ndof =
     sqrt (foldl (\<lambda>acc i. acc + norm ((sln ! i - last_vec ! i) * (sln ! i - last_vec ! i))) 0 [0..<ndof])"

definition rel_error :: "'a::real_normed_field list \<Rightarrow> 'a list \<Rightarrow> nat \<Rightarrow> double" where
  "rel_error sln last_vec ndof = double_div (abs_error sln last_vec ndof) (last_iter_vec_norm last_vec ndof)"

definition release :: "'a picard_solver \<Rightarrow> 'a locals \<Rightarrow> 'a locals" where
  "release s l =
     (let l1 = l\<lparr>freed := freed l @ [Last_iter_vector]\<rparr>;
          l2 = (if anderson_is_on s then
                  l1\<lparr>freed := freed l1
                       @ map (\<lambda>i. Previous_vector (previous_vectors l1 ! i))
                           [0..<nat (num_last_vectors_used s)]
                       @ [Previous_vectors_array, Anderson_coeffs]\<rparr>
                else l1)
      in l2\<lparr>trace := trace l2 @ [Info_solution_duration]\<rparr>)"

text \<open>The line logged in each iteration (the relative error is printed in per cent).\<close>

definition output_for_the_user :: "int \<Rightarrow> nat \<Rightarrow> real \<Rightarrow> double \<Rightarrow> event" where
  "output_for_the_user i ndof nrm err =
     (if \<bar>nrm\<bar> < 1 / 10 ^ 12 then Info_starting_from_zero_vector i ndof
      else Info_relative_error i ndof (double_times err 100))"

text \<open>
  The second half of the loop body: the error, the line for the user, the two stopping
  tests. \<open>Inl\<close> leaves the loop, \<open>Inr\<close> goes round again.
\<close>

definition finish_iteration ::
  "'a environment \<Rightarrow> 'a::real_normed_field picard_solver \<Rightarrow> 'a locals
     \<Rightarrow> 'a run + 'a picard_solver \<times> 'a locals" where
  "finish_iteration env s l =
     (let ndof = num_dofs env;
          sln = the (sln_vector s);
          nrm = last_iter_vec_norm (last_iter_vector l) ndof;
          err = rel_error sln (last_iter_vector l) ndof;
          l1 = l\<lparr>trace := trace l @ [output_for_the_user (it l) ndof nrm err]\<rparr>
      in if double_less err (tol s) then
           Inl \<lparr>outcome = None, instance_after = s, locals_at_exit = Some (release s l1)\<rparr>
         else if max_iter s \<le> it l then
           Inl \<lparr>outcome = Some Maximum_iterations_exceeded, instance_after = s,
                locals_at_exit = Some (release s l1)\<rparr>
         else Inr (s, l1\<lparr>it := it l + 1, last_iter_vector := take ndof sln\<rparr>))"

definition iteration ::
  "'a environment \<Rightarrow> 'a::real_normed_field picard_solver \<Rightarrow> 'a locals
     \<Rightarrow> 'a run + 'a picard_solver \<times> 'a locals" where
  "iteration env s l =
     (case compute_candidate env s l of
        (Some e, s1, l1) \<Rightarrow> Inl \<lparr>outcome = Some e, instance_after = s1, locals_at_exit = Some l1\<rparr>
      | (None, s1, l1) \<Rightarrow> finish_iteration env s1 l1)"

function picard_loop ::
  "'a environment \<Rightarrow> 'a::real_normed_field picard_solver \<Rightarrow> 'a locals \<Rightarrow> 'a run" where
  "picard_loop env s l =
     (case iteration env s l of
        Inl r \<Rightarrow> r
      | Inr (s', l') \<Rightarrow> picard_loop env s' l')"
  by pat_completeness auto

text \<open>
  The loop ends: an iteration that goes round again has \<open>it < max_iter\<close> and adds one to
  \<open>it\<close>, and nothing in the loop changes \<open>max_iter\<close>.
\<close>

termination picard_loop
proof (relation "measure (\<lambda>(env, s, l). nat (max_iter s - it l))")
  show "wf (measure (\<lambda>(env, s, l). nat (max_iter s - it l)))"
    by simp
next
  fix env :: "'a environment" and s :: "'a picard_solver" and l :: "'a locals"
    and x s' l'
  assume step: "iteration env s l = Inr x" and x: "(s', l') = x"
  obtain r s1 l1 where cc: "compute_candidate env s l = (r, s1, l1)"
    by (cases "compute_candidate env s l")
  have keep: "max_iter s1 = max_iter s \<and> it l1 = it l"
    using cc unfolding compute_candidate_def assemble_step_def store_vector_def Let_def
    by (auto split: prod.splits option.splits if_splits sum.splits)
  from step cc x have fin: "r = None" "finish_iteration env s1 l1 = Inr (s', l')"
    by (auto simp: iteration_def split: option.splits)
  from fin(2) have "max_iter s' = max_iter s1 \<and> it l' = it l1 + 1 \<and> it l1 < max_iter s1"
    unfolding finish_iteration_def Let_def by (auto split: if_splits)
  with keep show "((env, s', l'), (env, s, l)) \<in> measure (\<lambda>(env, s, l). nat (max_iter s - it l))"
    by simp
qed

definition solve ::
  "'a environment \<Rightarrow> 'a::real_normed_field picard_solver \<Rightarrow> 'a list option \<Rightarrow> 'a run" where
  "solve env s coeff_vec =
     (let ndof = num_dofs env
      in case init_solving env s ndof coeff_vec of
           Inl e \<Rightarrow> \<lparr>outcome = Some e, instance_after = s, locals_at_exit = None\<rparr>
         | Inr s1 \<Rightarrow> picard_loop env s1 (setup_locals s1 ndof))"

text \<open>
  The state at the head of the loop after \<open>n\<close> iterations that all went round again;
  \<open>None\<close> if the loop was left before.
\<close>

fun loop_head ::
  "'a environment \<Rightarrow> 'a::real_normed_field picard_solver \<Rightarrow> 'a locals \<Rightarrow> nat
     \<Rightarrow> ('a picard_solver \<times> 'a locals) option" where
  "loop_head env s l 0 = Some (s, l)"
| "loop_head env s l (Suc n) =
     (case iteration env s l of
        Inl r \<Rightarrow> None
      | Inr (s', l') \<Rightarrow> loop_head env s' l' n)"

text \<open>
  \<^verbatim>\<open>init_picard\<close>, which every constructor calls after the base class has set the
  inherited members.
\<close>

definition init_picard :: "'a picard_solver \<Rightarrow> 'a picard_solver" where
  "init_picard s =
     s\<lparr>tol := 1 / 10 ^ 4, max_iter := 50, num_last_vectors_used := 3, anderson_beta := 1,
       anderson_is_on := False\<rparr>"

text \<open>The setters store their argument; none of them validates it.\<close>

definition set_picard_tol :: "'a picard_solver \<Rightarrow> real \<Rightarrow> 'a picard_solver" where
  "set_picard_tol s t = s\<lparr>tol := t\<rparr>"

definition set_picard_max_iter :: "'a picard_solver \<Rightarrow> int \<Rightarrow> 'a picard_solver" where
  "set_picard_max_iter s n = s\<lparr>max_iter := n\<rparr>"

definition set_num_last_vector_used :: "'a picard_solver \<Rightarrow> int \<Rightarrow> 'a picard_solver" where
  "set_num_last_vector_used s num = s\<lparr>num_last_vectors_used := num\<rparr>"

definition set_anderson_beta :: "'a picard_solver \<Rightarrow> real \<Rightarrow> 'a picard_solver" where
  "set_anderson_beta s beta = s\<lparr>anderson_beta := beta\<rparr>"

definition use_Anderson_acceleration :: "'a picard_solver \<Rightarrow> bool \<Rightarrow> 'a picard_solver" where
  "use_Anderson_acceleration s to_set = s\<lparr>anderson_is_on := to_set\<rparr>"

section \<open>The formulas of the specification, and an example\<close>

text \<open>
  The normal equations as the specification writes them, with
  \<open>r\<^sub>i = v\<^sub>i\<^sub>+\<^sub>1 - v\<^sub>i\<close>. They are compared with the loops of \<^verbatim>\<open>calculate_anderson_coeffs\<close>
  below.
\<close>

definition spec_r :: "'a::real_normed_field list list \<Rightarrow> nat \<Rightarrow> nat \<Rightarrow> 'a" where
  "spec_r v i k = v ! (i + 1) ! k - v ! i ! k"

definition spec_rhs :: "'a::real_normed_field list list \<Rightarrow> nat \<Rightarrow> nat \<Rightarrow> nat \<Rightarrow> 'a" where
  "spec_rhs v n ndof i = (\<Sum>k = 0..<ndof. spec_r v n k * (spec_r v n k - spec_r v i k))"

definition spec_mat :: "'a::real_normed_field list list \<Rightarrow> nat \<Rightarrow> nat \<Rightarrow> nat \<Rightarrow> nat \<Rightarrow> 'a" where
  "spec_mat v n ndof i j =
     (\<Sum>k = 0..<ndof. (spec_r v n k - spec_r v i k) * (spec_r v n k - spec_r v j k))"

text \<open>The sum of a list accumulated from the left with a rounding after each addition.\<close>

definition rounded_sum :: "('a \<Rightarrow> 'a) \<Rightarrow> 'a::real_normed_field list \<Rightarrow> 'a" where
  "rounded_sum rnd xs = foldl (\<lambda>acc y. rnd (acc + y)) 0 xs"

text \<open>
  The scalar problem of the specification: one degree of freedom, each linear solve maps
  \<open>x\<close> to \<open>x / 2 + 3\<close> (fixed point \<open>6\<close>). The dense routines solve the \<open>1 \<times> 1\<close> system,
  the only size that occurs with three history vectors, by one division in binary64.
\<close>

definition scalar_env :: "real environment" where
  "scalar_env =
     \<lparr>ludcmp = (\<lambda>mat n. (mat, [0])),
      lubksb = (\<lambda>lu n perm rhs. [binary64_round (rhs ! 0 / lu ! 0 ! 0)]),
      to_double = (\<lambda>x. x),
      round_scalar = binary64_round,
      nonlinear_solver_isOkay = True,
      num_dofs = 1,
      matrix_solve = (\<lambda>it scheme v. Some (map (\<lambda>x. x / 2 + 3) v))\<rparr>"

text \<open>A freshly constructed solver: no solution yet, nothing to reuse.\<close>

definition fresh_solver :: "'a picard_solver" where
  "fresh_solver =
     init_picard \<lparr>tol = 0, max_iter = 0, num_last_vectors_used = 0, anderson_beta = 0,
       anderson_is_on = False, sln_vector = None, jacobian_reusable = False,
       constant_jacobian = False\<rparr>"

section \<open>What the loop keeps true\<close>

text \<open>
  The events of one pass through the assembly branch: the branch taken when the Jacobian
  is reusable, the branch taken when it is not, and the scheme handed to the matrix solver.
\<close>

definition reuse_block :: "'a picard_solver \<Rightarrow> event list" where
  "reuse_block s =
     (if constant_jacobian s then
        [Info_reusing_jacobian, Assemble_residual,
         Set_factorization_scheme HERMES_REUSE_FACTORIZATION_COMPLETELY]
      else [Set_factorization_scheme HERMES_REUSE_MATRIX_REORDERING_AND_SCALING,
            Assemble_jacobian_and_residual])"

definition scratch_block :: "event list" where
  "scratch_block =
     [Assemble_jacobian_and_residual, Set_factorization_scheme HERMES_FACTORIZE_FROM_SCRATCH]"

definition scheme_of :: "'a picard_solver \<Rightarrow> factorization_scheme" where
  "scheme_of s =
     (if jacobian_reusable s then
        (if constant_jacobian s then HERMES_REUSE_FACTORIZATION_COMPLETELY
         else HERMES_REUSE_MATRIX_REORDERING_AND_SCALING)
      else HERMES_FACTORIZE_FROM_SCRATCH)"

text \<open>
  The memory is well formed when the pointer array holds \<open>m\<close> different addresses and
  the counter is between one and \<open>m\<close>.
\<close>

definition memory_ok :: "'a locals \<Rightarrow> nat \<Rightarrow> bool" where
  "memory_ok l m \<longleftrightarrow>
     length (previous_vectors l) = m \<and> distinct (previous_vectors l)
     \<and> 1 \<le> vec_in_memory l \<and> vec_in_memory l \<le> int m"

text \<open>The assembly events of a trace, and the number of linear solves in it.\<close>

fun is_assembly :: "event \<Rightarrow> bool" where
  "is_assembly Info_reusing_jacobian = True"
| "is_assembly Assemble_residual = True"
| "is_assembly Assemble_jacobian_and_residual = True"
| "is_assembly (Set_factorization_scheme sch) = True"
| "is_assembly e = False"

definition solves :: "event list \<Rightarrow> nat" where
  "solves tr = length (filter (\<lambda>e. e = Matrix_solver_solve) tr)"

text \<open>What \<^verbatim>\<open>solve\<close> allocates before the loop.\<close>

definition allocated_by :: "'a picard_solver \<Rightarrow> allocation list" where
  "allocated_by s =
     (if anderson_is_on s then
        [Last_iter_vector, Previous_vectors_array]
          @ map Previous_vector [0..<nat (num_last_vectors_used s)] @ [Anderson_coeffs]
      else [Last_iter_vector])"

text \<open>
  The invariant of the loop, at the head of iteration \<open>it\<close>, relative to the instance \<open>s0\<close>
  with which the loop was entered: the configuration is untouched; \<open>it\<close> is between one
  and \<open>max_iter\<close>; the Jacobian is marked reusable after the first pass; nothing has been
  freed; the pointer array is a permutation of the addresses allocated; \<open>it - 1\<close> iterates
  and linear solves have been made; and the assembly events are one first block and then
  reuse blocks.
\<close>

definition same_config :: "'a picard_solver \<Rightarrow> 'a picard_solver \<Rightarrow> bool" where
  "same_config s0 s \<longleftrightarrow>
     tol s = tol s0 \<and> max_iter s = max_iter s0
     \<and> num_last_vectors_used s = num_last_vectors_used s0
     \<and> anderson_beta s = anderson_beta s0 \<and> anderson_is_on s = anderson_is_on s0
     \<and> constant_jacobian s = constant_jacobian s0"

definition loop_inv :: "'a picard_solver \<Rightarrow> 'a picard_solver \<Rightarrow> 'a locals \<Rightarrow> bool" where
  "loop_inv s0 s l \<longleftrightarrow>
     same_config s0 s \<and> 1 \<le> it l \<and> it l \<le> max 1 (max_iter s0)
     \<and> (if it l = 1 then jacobian_reusable s = jacobian_reusable s0 else jacobian_reusable s)
     \<and> freed l = [] \<and> allocated l = allocated_by s0
     \<and> (anderson_is_on s0 \<longrightarrow>
          1 \<le> num_last_vectors_used s0
          \<and> length (previous_vectors l) = nat (num_last_vectors_used s0)
          \<and> mset (previous_vectors l) = mset [0..<nat (num_last_vectors_used s0)])
     \<and> int (length (iterates l)) = it l - 1
     \<and> int (solves (trace l)) = it l - 1
     \<and> filter is_assembly (trace l) =
          (if it l = 1 then []
           else (if jacobian_reusable s0 then reuse_block s0 else scratch_block)
                  @ concat (replicate (nat (it l - 2)) (reuse_block s0)))"

text \<open>
  For the comparison of Anderson acceleration at depth two with the plain iteration: the
  state of an accelerated run at depth two with \<open>beta = 1\<close>; what an accelerated and a
  plain run share at the head of an iteration; and what two finished calls share.
\<close>

definition depth_two :: "'a picard_solver \<Rightarrow> 'a locals \<Rightarrow> bool" where
  "depth_two s l \<longleftrightarrow>
     anderson_is_on s \<and> num_last_vectors_used s = 2 \<and> anderson_beta s = 1
     \<and> length (previous_vectors l) = 2 \<and> 1 \<le> vec_in_memory l
     \<and> length (anderson_coeffs l) = 1"

definition same_iteration ::
  "'a picard_solver \<Rightarrow> 'a locals \<Rightarrow> 'a picard_solver \<Rightarrow> 'a locals \<Rightarrow> bool" where
  "same_iteration s l sp lp \<longleftrightarrow>
     sp = s\<lparr>anderson_is_on := False\<rparr>
     \<and> last_iter_vector lp = last_iter_vector l \<and> it lp = it l
     \<and> trace lp = trace l \<and> iterates lp = iterates l"

definition same_run :: "'a run \<Rightarrow> 'a run \<Rightarrow> bool" where
  "same_run r p \<longleftrightarrow>
     outcome p = outcome r
     \<and> sln_vector (instance_after p) = sln_vector (instance_after r)
     \<and> map_option iterates (locals_at_exit p) = map_option iterates (locals_at_exit r)
     \<and> map_option trace (locals_at_exit p) = map_option trace (locals_at_exit r)"

section \<open>Sums and array updates\<close>

lemma foldl_add_sum:
  fixes f :: "nat \<Rightarrow> 'a::comm_monoid_add"
  shows "foldl (\<lambda>acc k. acc + f k) a [i..<j] = a + (\<Sum>k = i..<j. f k)"
proof (induction j arbitrary: a)
  case 0
  then show ?case by simp
next
  case (Suc j)
  show ?case
  proof (cases "i \<le> j")
    case True
    then show ?thesis using Suc by (simp add: add.assoc)
  next
    case False
    then show ?thesis by simp
  qed
qed

lemma update_tail_of_prefix:
  assumes "n < length c"
  shows "(map f [0..<n] @ drop n c)[n := f n] = map f [0..<Suc n] @ drop (Suc n) c"
proof -
  have "drop n c = c ! n # drop (Suc n) c"
    using assms by (simp add: Cons_nth_drop_Suc)
  then show ?thesis
    by (simp add: list_update_append)
qed

lemma foldl_update_map:
  "n \<le> length xs \<Longrightarrow> foldl (\<lambda>s i. s[i := f i]) xs [0..<n] = map f [0..<n] @ drop n xs"
proof (induction n)
  case 0
  then show ?case by simp
next
  case (Suc n)
  then show ?case
    by (simp add: update_tail_of_prefix)
qed

section \<open>The Anderson coefficients\<close>

lemma rhs_entry_sum:
  "rhs_entry pv n ndof i =
     (\<Sum>k = 0..<ndof. residual pv n k * (residual pv n k - residual pv i k))"
  unfolding rhs_entry_def Let_def by (simp add: foldl_add_sum)

lemma mat_val_sum:
  "mat_val pv n ndof i j =
     (\<Sum>k = 0..<ndof. (residual pv n k - residual pv i k) * (residual pv n k - residual pv j k))"
  unfolding mat_val_def Let_def by (simp add: foldl_add_sum)

subsection \<open>Rounding\<close>

lemma round_half_even_near:
  assumes "of_int k - 1 / 2 < r" and "r < of_int k + 1 / 2"
  shows "round_half_even r = k"
proof -
  have "\<lfloor>r\<rfloor> = k \<or> \<lfloor>r\<rfloor> = k - 1"
    using assms by linarith
  then show ?thesis
  proof
    assume f: "\<lfloor>r\<rfloor> = k"
    then have "r - of_int k < 1 / 2" using assms by linarith
    with f show ?thesis by (simp add: round_half_even_def)
  next
    assume f: "\<lfloor>r\<rfloor> = k - 1"
    then have "1 / 2 < r - of_int (k - 1)" using assms by simp
    with f show ?thesis by (simp add: round_half_even_def)
  qed
qed

lemma round_half_even_tie:
  assumes "r = of_int k + 1 / 2"
  shows "round_half_even r = (if even k then k else k + 1)"
proof -
  have "\<lfloor>r\<rfloor> = k" using assms by linarith
  then show ?thesis using assms by (simp add: round_half_even_def)
qed

lemma binary64_round_in_binade:
  assumes "2 powi e \<le> \<bar>x\<bar>" and "\<bar>x\<bar> < 2 powi (e + 1)" and "- 1022 \<le> e"
  shows "binary64_round x = of_int (round_half_even (x / 2 powi (e - 52))) * 2 powi (e - 52)"
proof -
  have pos: "0 < \<bar>x\<bar>"
    using assms(1) by (smt (verit) zero_less_power_int)
  have "2 powr (real_of_int e + 1) = (2::real) powi (e + 1)"
    using powr_real_of_int' [of "2::real" "e + 1"] by simp
  then have "\<lfloor>log 2 \<bar>x\<bar>\<rfloor> = e"
    using assms(1,2) pos by (simp add: floor_log_eq_powr_iff powr_real_of_int')
  then show ?thesis
    using pos assms(3) by (simp add: binary64_round_def Let_def)
qed

lemma binary64_round_minus_one: "binary64_round (- 1) = - 1"
proof -
  have "binary64_round (- 1) = of_int (round_half_even (- 1 / 2 powi (0 - 52))) * 2 powi (0 - 52)"
    by (rule binary64_round_in_binade) simp_all
  also have "round_half_even (- 1 / 2 powi (0 - 52)) = - (2 ^ 52)"
    by (rule round_half_even_near) (simp_all add: power_int_minus field_simps)
  finally show ?thesis by (simp add: power_int_minus field_simps)
qed

lemma binary64_round_two: "binary64_round 2 = 2"
proof -
  have "binary64_round 2 = of_int (round_half_even (2 / 2 powi (1 - 52))) * 2 powi (1 - 52)"
    by (rule binary64_round_in_binade) simp_all
  also have "round_half_even (2 / 2 powi (1 - 52)) = 2 ^ 52"
    by (rule round_half_even_near) (simp_all add: power_int_minus field_simps)
  finally show ?thesis by (simp add: power_int_minus field_simps)
qed

lemma binary64_round_minus_two_thirds:
  "binary64_round (- 6 / 9) = - (6004799503160661 / 2 ^ 53)"
proof -
  have "binary64_round (- 6 / 9) =
      of_int (round_half_even (- 6 / 9 / 2 powi (- 1 - 52))) * 2 powi (- 1 - 52)"
    by (rule binary64_round_in_binade) (simp_all add: power_int_minus field_simps)
  also have "round_half_even (- 6 / 9 / 2 powi (- 1 - 52)) = - 6004799503160661"
    by (rule round_half_even_near) (simp_all add: power_int_minus field_simps)
  finally show ?thesis by (simp add: power_int_minus field_simps)
qed

lemma binary64_round_minus_two_thirds_again:
  "binary64_round (- (6004799503160661 / 2 ^ 53)) = - (6004799503160661 / 2 ^ 53)"
proof -
  have "binary64_round (- (6004799503160661 / 2 ^ 53)) =
      of_int (round_half_even (- (6004799503160661 / 2 ^ 53) / 2 powi (- 1 - 52)))
        * 2 powi (- 1 - 52)"
    by (rule binary64_round_in_binade) (simp_all add: power_int_minus field_simps)
  also have "round_half_even (- (6004799503160661 / 2 ^ 53) / 2 powi (- 1 - 52))
      = - 6004799503160661"
    by (rule round_half_even_near) (simp_all add: power_int_minus field_simps)
  finally show ?thesis by (simp add: power_int_minus field_simps)
qed

lemma binary64_round_five_thirds:
  "binary64_round (1 + 6004799503160661 / 2 ^ 53) = 7505999378950826 / 2 ^ 52"
proof -
  have "binary64_round (1 + 6004799503160661 / 2 ^ 53) =
      of_int (round_half_even ((1 + 6004799503160661 / 2 ^ 53) / 2 powi (0 - 52)))
        * 2 powi (0 - 52)"
    by (rule binary64_round_in_binade) (simp_all add: power_int_minus field_simps)
  also have "round_half_even ((1 + 6004799503160661 / 2 ^ 53) / 2 powi (0 - 52))
      = (if even (7505999378950826 :: int) then 7505999378950826 else 7505999378950826 + 1)"
    by (rule round_half_even_tie) (simp add: power_int_minus field_simps)
  finally show ?thesis by (simp add: power_int_minus field_simps)
qed

lemma binary64_round_below_one:
  "binary64_round (1 - 1 / 2 ^ 53) = 1 - 1 / 2 ^ 53"
proof -
  have "binary64_round (1 - 1 / 2 ^ 53) =
      of_int (round_half_even ((1 - 1 / 2 ^ 53) / 2 powi (- 1 - 52))) * 2 powi (- 1 - 52)"
    by (rule binary64_round_in_binade) (simp_all add: power_int_minus field_simps)
  also have "round_half_even ((1 - 1 / 2 ^ 53) / 2 powi (- 1 - 52)) = 2 ^ 53 - 1"
    by (rule round_half_even_near) (simp_all add: power_int_minus field_simps)
  finally show ?thesis by (simp add: power_int_minus field_simps)
qed

subsection \<open>The coefficients\<close>

lemma rounded_sum_snoc: "rounded_sum rnd (xs @ [y]) = rnd (rounded_sum rnd xs + y)"
  by (simp add: rounded_sum_def)

lemma copy_coeffs_eq:
  "n \<le> length c \<Longrightarrow>
     copy_coeffs rnd c x n =
       (map (\<lambda>i. x ! i) [0..<n] @ drop n c, rounded_sum rnd (map (\<lambda>i. x ! i) [0..<n]))"
proof (induction n)
  case 0
  then show ?case by (simp add: copy_coeffs_def rounded_sum_def)
next
  case (Suc n)
  then have IH: "copy_coeffs rnd c x n =
       (map (\<lambda>i. x ! i) [0..<n] @ drop n c, rounded_sum rnd (map (\<lambda>i. x ! i) [0..<n]))"
    by simp
  have "copy_coeffs rnd c x (Suc n) =
          (\<lambda>(coeffs, sum). (coeffs[n := x ! n], rnd (sum + x ! n))) (copy_coeffs rnd c x n)"
    by (simp add: copy_coeffs_def case_prod_beta)
  also have "\<dots> = ((map (\<lambda>i. x ! i) [0..<n] @ drop n c)[n := x ! n],
                    rnd (rounded_sum rnd (map (\<lambda>i. x ! i) [0..<n]) + x ! n))"
    by (simp add: IH)
  also have "(map (\<lambda>i. x ! i) [0..<n] @ drop n c)[n := x ! n] =
               map (\<lambda>i. x ! i) [0..<Suc n] @ drop (Suc n) c"
    using Suc.prems by (simp add: update_tail_of_prefix)
  finally show ?case by (simp add: rounded_sum_snoc)
qed

lemma mixed_entry_sum:
  "mixed_entry pv c beta m i =
     (\<Sum>j = 1..<nat m. c ! (j - 1) * pv ! j ! i
          - of_real (1 - beta) * c ! (j - 1) * (pv ! j ! i - pv ! (j - 1) ! i))"
  unfolding mixed_entry_def by (simp add: foldl_add_sum)

lemma anderson_mix_map:
  "length sln = ndof \<Longrightarrow>
     anderson_mix pv c beta m ndof sln = map (mixed_entry pv c beta m) [0..<ndof]"
  unfolding anderson_mix_def by (simp add: foldl_update_map)

lemma calculate_anderson_coeffs_two:
  "calculate_anderson_coeffs env pv c 2 ndof = Inr (c[0 := 1])"
  by (simp add: calculate_anderson_coeffs_def)

lemma calculate_anderson_coeffs_general:
  assumes "3 \<le> m" and "length c = nat (m - 1)"
  shows "calculate_anderson_coeffs env pv c m ndof =
     (let n = nat (m - 2);
          rhs = anderson_rhs pv n ndof;
          mat = anderson_mat (to_double env) pv n ndof;
          x = lubksb env (fst (ludcmp env mat n)) n (snd (ludcmp env mat n)) rhs;
          solved = map (\<lambda>i. x ! i) [0..<n]
      in Inr (solved @ [round_scalar env (1 - rounded_sum (round_scalar env) solved)]))"
proof -
  define n where "n = nat (m - 2)"
  have len: "length c = Suc n"
    using assms by (simp add: n_def nat_diff_distrib Suc_nat_eq_nat_zadd1)
  have tail: "drop n c = [c ! n]"
    using len by (metis Cons_nth_drop_Suc drop_all lessI order_refl)
  have upd: "(map f [0..<n] @ drop n c)[n := v] = map f [0..<n] @ [v]" for f :: "nat \<Rightarrow> 'a" and v
    by (simp add: tail list_update_append)
  show ?thesis
    using assms(1) len
    by (simp add: calculate_anderson_coeffs_def Let_def case_prod_beta n_def [symmetric]
        copy_coeffs_eq upd)
qed

text \<open>
  On the scalar example after two plain iterations (\<open>0, 3, 9/2\<close>), the coefficients are
  \<open>-1\<close> and \<open>2\<close>; no rounding occurs.
\<close>

lemma scalar_example_coeffs:
  "calculate_anderson_coeffs scalar_env [[0], [3], [9 / 2]] [0, 0] 3 1 = Inr [-1, 2]"
  by (simp add: calculate_anderson_coeffs_general Let_def anderson_rhs_def anderson_mat_def
      rhs_entry_sum mat_val_sum residual_def scalar_env_def rounded_sum_def
      binary64_round_minus_one binary64_round_two)

text \<open>
  C7, as the code has it. For a history depth \<open>m \<ge> 2\<close> and a coefficient array of
  \<open>m - 1\<close> entries (as \<^verbatim>\<open>solve\<close> allocates it), \<^verbatim>\<open>calculate_anderson_coeffs\<close> returns
  normally with \<open>m - 1\<close> coefficients. For \<open>m = 2\<close> the result is the single coefficient
  \<open>1\<close>, whatever the dense routines are: they are not consulted. For \<open>m \<ge> 3\<close> the
  coefficients before the last are the values which the dense routines leave in
  \<^verbatim>\<open>rhs\<close>, and the last coefficient is the rounded value of \<open>1\<close> minus their sum, that sum
  being accumulated with a rounding after each addition; the coefficients sum to exactly
  \<open>1\<close> when neither the accumulation nor the subtraction rounds.
\<close>

theorem anderson_coeffs_last_rounded:
  assumes "2 \<le> m" and "length c = nat (m - 1)"
  shows "\<exists>c'. calculate_anderson_coeffs env pv c m ndof = Inr c'
           \<and> length c' = nat (m - 1)
           \<and> (m = 2 \<longrightarrow> c' = [1])
           \<and> (3 \<le> m \<longrightarrow>
                butlast c' =
                  (let n = nat (m - 2);
                       mat = anderson_mat (to_double env) pv n ndof;
                       x = lubksb env (fst (ludcmp env mat n)) n (snd (ludcmp env mat n))
                             (anderson_rhs pv n ndof)
                   in map (\<lambda>i. x ! i) [0..<n])
                \<and> last c' = round_scalar env (1 - rounded_sum (round_scalar env) (butlast c')))
           \<and> (3 \<le> m
                \<and> rounded_sum (round_scalar env) (butlast c') = sum_list (butlast c')
                \<and> round_scalar env (1 - sum_list (butlast c')) = 1 - sum_list (butlast c')
              \<longrightarrow> sum_list c' = 1)"
proof (cases "m = 2")
  case True
  with assms(2) obtain c0 where "c = [c0]"
    by (cases c) auto
  with True show ?thesis
    by (simp add: calculate_anderson_coeffs_two)
next
  case False
  with assms have m: "3 \<le> m" by simp
  have n: "Suc (nat (m - 2)) = nat (m - 1)"
    using m by simp
  show ?thesis
    using False n
    by (simp add: calculate_anderson_coeffs_general [OF m assms(2)] Let_def)
qed

theorem anderson_coeffs_last_rounded_witness:
  "(2::int) \<le> 3 \<and> length [0, 0 :: real] = nat (3 - 1)
   \<and> calculate_anderson_coeffs scalar_env [[0], [3], [9 / 2]] [0, 0] 3 1 = Inr [- 1, 2]
   \<and> length [- 1, 2 :: real] = nat (3 - 1)
   \<and> butlast [- 1, 2 :: real] =
        (let n = nat (3 - 2);
             mat = anderson_mat (to_double scalar_env) [[0], [3], [9 / 2]] n 1;
             x = lubksb scalar_env (fst (ludcmp scalar_env mat n)) n (snd (ludcmp scalar_env mat n))
                   (anderson_rhs [[0], [3], [9 / 2]] n 1)
         in map (\<lambda>i. x ! i) [0..<n])
   \<and> last [- 1, 2 :: real]
        = round_scalar scalar_env (1 - rounded_sum (round_scalar scalar_env) (butlast [- 1, 2]))
   \<and> rounded_sum (round_scalar scalar_env) (butlast [- 1, 2 :: real]) = sum_list (butlast [- 1, 2])
   \<and> round_scalar scalar_env (1 - sum_list (butlast [- 1, 2 :: real]))
        = 1 - sum_list (butlast [- 1, 2])
   \<and> sum_list [- 1, 2 :: real] = 1
   \<and> (2::int) \<le> 2 \<and> length [0 :: real] = nat (2 - 1)
   \<and> calculate_anderson_coeffs scalar_env [[0], [3]] [0] 2 1 = Inr [1]"
proof -
  have rnd: "round_scalar scalar_env = binary64_round"
    by (simp add: scalar_env_def)
  have vals: "rounded_sum binary64_round (butlast [- 1, 2 :: real]) = - 1"
    "binary64_round (1 - (- 1)) = 2"
    using binary64_round_two by (simp_all add: rounded_sum_def binary64_round_minus_one)
  have solved: "(let n = nat (3 - 2);
             mat = anderson_mat (to_double scalar_env) [[0], [3], [9 / 2]] n 1;
             x = lubksb scalar_env (fst (ludcmp scalar_env mat n)) n (snd (ludcmp scalar_env mat n))
                   (anderson_rhs [[0], [3], [9 / 2]] n 1)
         in map (\<lambda>i. x ! i) [0..<n]) = [- 1 :: real]"
    using anderson_coeffs_last_rounded [of 3 "[0, 0 :: real]" scalar_env "[[0], [3], [9 / 2]]" 1]
    unfolding scalar_example_coeffs by simp
  from anderson_coeffs_last_rounded [of 2 "[0 :: real]" scalar_env "[[0], [3]]" 1]
  have two: "calculate_anderson_coeffs scalar_env [[0], [3]] [0] 2 1 = Inr [1]"
    by simp
  show ?thesis
    unfolding scalar_example_coeffs rnd solved using vals two by simp
qed

text \<open>
  The sum is not always exactly one. With the history \<open>0, 5, 7\<close> of one entry, every
  value up to the division is exact: the right-hand side is \<open>-6\<close> and the matrix \<open>9\<close>.
  The division gives the binary64 number nearest to \<open>-2/3\<close>; \<open>1\<close> minus it lies halfway
  between two binary64 numbers and goes to the even one. The two coefficients sum to
  \<open>1 - 2\<^sup>-\<^sup>5\<^sup>3\<close>, itself a binary64 number, so that their sum taken in binary64 is not
  \<open>1\<close> either.
\<close>

theorem anderson_coeffs_sum_below_one:
  "calculate_anderson_coeffs scalar_env [[0], [5], [7]] [0, 0] 3 1
     = Inr [- (6004799503160661 / 2 ^ 53), 7505999378950826 / 2 ^ 52]
   \<and> sum_list [- (6004799503160661 / 2 ^ 53), 7505999378950826 / 2 ^ 52 :: real] = 1 - 1 / 2 ^ 53
   \<and> sum_list [- (6004799503160661 / 2 ^ 53), 7505999378950826 / 2 ^ 52 :: real] \<noteq> 1
   \<and> binary64_round (- (6004799503160661 / 2 ^ 53) + 7505999378950826 / 2 ^ 52) \<noteq> 1"
proof -
  have 1: "binary64_round (- (2 / 3)) = - (6004799503160661 / 2 ^ 53)"
    using binary64_round_minus_two_thirds by simp
  have 2: "binary64_round (15011998757901653 / 9007199254740992)
              = 3752999689475413 / 2251799813685248"
    using binary64_round_five_thirds by simp
  have 3: "binary64_round (- (6004799503160661 / 9007199254740992)) = - (6004799503160661 / 2 ^ 53)"
    using binary64_round_minus_two_thirds_again by simp
  have 4: "- (6004799503160661 / 2 ^ 53) + 7505999378950826 / 2 ^ 52 = (1 - 1 / 2 ^ 53 :: real)"
    by simp
  have "calculate_anderson_coeffs scalar_env [[0], [5], [7]] [0, 0] 3 1
     = Inr [- (6004799503160661 / 2 ^ 53), 7505999378950826 / 2 ^ 52]"
    by (simp add: calculate_anderson_coeffs_general Let_def anderson_rhs_def anderson_mat_def
      rhs_entry_sum mat_val_sum residual_def scalar_env_def rounded_sum_def 1 2 3)
  moreover have "binary64_round (- (6004799503160661 / 2 ^ 53) + 7505999378950826 / 2 ^ 52) \<noteq> 1"
    unfolding 4 binary64_round_below_one by simp
  ultimately show ?thesis by simp
qed

subsection \<open>The normal equations\<close>

lemma residual_spec_r: "residual = spec_r"
  by (intro ext) (simp add: residual_def spec_r_def)

lemma anderson_rhs_spec: "anderson_rhs v n ndof = map (spec_rhs v n ndof) [0..<n]"
  by (simp add: anderson_rhs_def rhs_entry_sum spec_rhs_def residual_spec_r)

lemma anderson_mat_spec:
  "anderson_mat cast v n ndof = map (\<lambda>i. map (\<lambda>j. cast (spec_mat v n ndof i j)) [0..<n]) [0..<n]"
  by (simp add: anderson_mat_def mat_val_sum spec_mat_def residual_spec_r)

text \<open>
  For \<^verbatim>\<open>Scalar = double\<close>, where the cast is the identity, the loops build the system of
  the specification, hand it to \<^verbatim>\<open>ludcmp\<close> and \<^verbatim>\<open>lubksb\<close>, and copy the solution into
  the first \<open>n\<close> coefficients.
\<close>

lemma normal_equations_double:
  assumes "3 \<le> m" and "length c = nat (m - 1)" and "to_double env = (\<lambda>x. x)"
  shows "calculate_anderson_coeffs env v c m ndof =
     (let n = nat (m - 2);
          rhs = map (spec_rhs v n ndof) [0..<n];
          mat = map (\<lambda>i. map (\<lambda>j. spec_mat v n ndof i j) [0..<n]) [0..<n];
          (lu, perm) = ludcmp env mat n;
          x = lubksb env lu n perm rhs;
          solved = map (\<lambda>i. x ! i) [0..<n]
      in Inr (solved @ [round_scalar env (1 - rounded_sum (round_scalar env) solved)]))"
  by (simp add: calculate_anderson_coeffs_general [OF assms(1,2)] Let_def case_prod_beta
      anderson_rhs_spec anderson_mat_spec assms(3))

text \<open>
  C8. For \<^verbatim>\<open>Scalar\<close> complex the matrix is not the one of the specification: the cast
  keeps the real part of each entry. With three history vectors \<open>0, 0, 1 + \<i>\<close> of one
  entry, the entry of the specification is \<open>(1 + \<i>)\<^sup>2 = 2\<i>\<close>, and the matrix handed to
  \<^verbatim>\<open>ludcmp\<close> holds \<open>0\<close>.
\<close>

theorem normal_equations_complex_truncated:
  "anderson_mat Re [[0], [0], [1 + \<i>]] 1 1 = [[0]]
   \<and> map (\<lambda>i. map (\<lambda>j. spec_mat [[0], [0], [1 + \<i>]] 1 1 i j) [0..<1]) [0..<1] = [[2 * \<i>]]"
  by (simp add: anderson_mat_spec spec_mat_def spec_r_def algebra_simps)

subsection \<open>The mixed vector\<close>

text \<open>
  C9. Entry \<open>k\<close> of the mixed vector is the sum over \<open>j = 1, \<dots>, m - 1\<close> of
  \<open>c\<^sub>j v\<^sub>j[k] - (1 - beta) c\<^sub>j (v\<^sub>j[k] - v\<^sub>j\<^sub>-\<^sub>1[k])\<close>, where \<open>c\<^sub>j\<close> is
  \<^verbatim>\<open>anderson_coeffs[j-1]\<close>; with \<open>beta = 1\<close> it is the plain combination, the sum of
  \<open>c\<^sub>j v\<^sub>j[k]\<close>.
\<close>

theorem anderson_mix_formula:
  assumes "length sln = ndof" and "k < ndof"
  shows "anderson_mix pv c beta m ndof sln ! k =
           (\<Sum>j = 1..<nat m. c ! (j - 1) * pv ! j ! k
               - of_real (1 - beta) * c ! (j - 1) * (pv ! j ! k - pv ! (j - 1) ! k))
         \<and> (beta = 1 \<longrightarrow>
              anderson_mix pv c beta m ndof sln ! k = (\<Sum>j = 1..<nat m. c ! (j - 1) * pv ! j ! k))"
  using assms by (simp add: anderson_mix_map mixed_entry_sum)

theorem anderson_mix_formula_witness:
  "length [9 / 2 :: real] = 1 \<and> (0::nat) < 1
   \<and> anderson_mix [[0], [3], [9 / 2]] [-1, 2] 1 3 1 [9 / 2 :: real] ! 0 =
           (\<Sum>j = 1..<nat 3. [-1, 2] ! (j - 1) * [[0], [3], [9 / 2]] ! j ! 0
               - of_real (1 - 1) * [-1, 2] ! (j - 1)
                   * ([[0], [3], [9 / 2]] ! j ! 0 - [[0], [3], [9 / 2]] ! (j - 1) ! 0))
   \<and> (1::real) = 1
   \<and> anderson_mix [[0], [3], [9 / 2]] [-1, 2] 1 3 1 [9 / 2 :: real] ! 0 =
            (\<Sum>j = 1..<nat 3. [-1, 2] ! (j - 1) * [[0], [3], [9 / 2]] ! j ! 0)"
  using anderson_mix_formula [of "[9 / 2 :: real]" 1 0 "[[0], [3], [9 / 2]]" "[-1, 2]" 1 3]
  by simp

text \<open>On the scalar example the mixed vector is the fixed point.\<close>

lemma scalar_example_mix:
  "anderson_mix [[0], [3], [9 / 2]] [-1, 2] 1 3 1 [9 / 2 :: real] = [6]"
  by (simp add: anderson_mix_map mixed_entry_sum numeral_3_eq_3)

section \<open>The history of iterates: the memory holds the last vectors\<close>

lemma shift_loop:
  "k < length pv \<Longrightarrow>
     foldl (\<lambda>p i. p[i := p ! (i + 1)]) pv [0..<k] = take k (tl pv) @ drop k pv"
proof (induction k)
  case 0
  then show ?case by simp
next
  case (Suc k)
  then have k: "k < length pv" and IH:
    "foldl (\<lambda>p i. p[i := p ! (i + 1)]) pv [0..<k] = take k (tl pv) @ drop k pv"
    by simp_all
  have d: "drop k pv = pv ! k # drop (Suc k) pv"
    using k by (simp add: Cons_nth_drop_Suc)
  have d': "drop (Suc k) pv = pv ! Suc k # drop (Suc (Suc k)) pv"
    using Suc.prems by (simp add: Cons_nth_drop_Suc)
  have lt: "length (take k (tl pv)) = k"
    using k by simp
  have t: "take (Suc k) (tl pv) = take k (tl pv) @ [pv ! Suc k]"
    using Suc.prems by (simp add: take_Suc_conv_app_nth nth_tl)
  have "(take k (tl pv) @ drop k pv) ! (k + 1) = pv ! Suc k"
    using lt by (simp add: nth_append d d')
  moreover have "(take k (tl pv) @ drop k pv)[k := v] = take k (tl pv) @ v # drop (Suc k) pv" for v
    using lt by (simp add: list_update_append d)
  ultimately show ?case
    using IH t by simp
qed

lemma shift_pointers_rotate:
  assumes "length pv = m" and "0 < m"
  shows "shift_pointers pv m = tl pv @ [hd pv]"
proof -
  have "m - 1 < length pv" using assms by simp
  then have loop: "foldl (\<lambda>p i. p[i := p ! (i + 1)]) pv [0..<m - 1] = take (m - 1) (tl pv) @ drop (m - 1) pv"
    by (rule shift_loop)
  have 1: "take (m - 1) (tl pv) = tl pv"
    using assms by simp
  have 2: "drop (m - 1) pv = [last pv]"
    using assms by (cases pv rule: rev_cases) auto
  have 3: "pv ! 0 = hd pv"
    using assms by (cases pv) auto
  have "length (tl pv) = m - 1" using assms by simp
  then show ?thesis
    unfolding shift_pointers_def Let_def loop 1 2 3
    by (simp add: list_update_append)
qed

lemma stored_store_vector:
  assumes ok: "memory_ok l m" and m: "0 < m"
  shows "stored (store_vector l (int m) ndof v) =
           (if vec_in_memory l < int m then stored l @ [take ndof v]
            else tl (stored l) @ [take ndof v])"
    and "memory_ok (store_vector l (int m) ndof v) m"
    and "vec_in_memory (store_vector l (int m) ndof v) = min (vec_in_memory l + 1) (int m)"
proof -
  let ?pv = "previous_vectors l"
  from ok have len: "length ?pv = m" and dist: "distinct ?pv"
    and lo: "1 \<le> vec_in_memory l" and hi: "vec_in_memory l \<le> int m"
    by (simp_all add: memory_ok_def)
  show "memory_ok (store_vector l (int m) ndof v) m"
  proof (cases "vec_in_memory l < int m")
    case True
    then show ?thesis using ok by (simp add: store_vector_def memory_ok_def)
  next
    case False
    then show ?thesis
      using ok m len dist
      by (cases ?pv) (auto simp: store_vector_def memory_ok_def Let_def shift_pointers_rotate)
  qed
  show "vec_in_memory (store_vector l (int m) ndof v) = min (vec_in_memory l + 1) (int m)"
    using hi by (simp add: store_vector_def Let_def)
  show "stored (store_vector l (int m) ndof v) =
           (if vec_in_memory l < int m then stored l @ [take ndof v]
            else tl (stored l) @ [take ndof v])"
  proof (cases "vec_in_memory l < int m")
    case True
    define k where "k = nat (vec_in_memory l)"
    have k: "k < m" "vec_in_memory l = int k"
      using True lo by (simp_all add: k_def)
    have tk: "take (Suc k) ?pv = take k ?pv @ [?pv ! k]"
      using k len by (simp add: take_Suc_conv_app_nth)
    have notin: "?pv ! k \<notin> set (take k ?pv)"
      using dist k len by (metis distinct_take id_take_nth_drop not_distinct_conv_prefix)
    then have "map ((heap l)(?pv ! k := take ndof v)) (take k ?pv) = map (heap l) (take k ?pv)"
      by (intro map_cong) auto
    moreover have "nat (vec_in_memory l + 1) = Suc k" "nat (vec_in_memory l) = k"
      using lo by (simp_all add: k_def)
    ultimately show ?thesis
      using True tk by (simp add: stored_def store_vector_def)
  next
    case False
    then have full: "vec_in_memory l = int m" using hi by simp
    obtain p ps where pv: "?pv = p # ps"
      using len m by (cases ?pv) auto
    have notin: "p \<notin> set ps" using dist pv by simp
    then have same: "map ((heap l)(p := take ndof v)) ps = map (heap l) ps"
      by (intro map_cong) auto
    have m1: "m = Suc (length ps)" using len pv by auto
    have rot: "shift_pointers ?pv m = ps @ [p]"
      using shift_pointers_rotate [OF len m] pv by simp
    have "(ps @ [p]) ! (m - 1) = p"
      by (simp add: m1)
    then have st: "store_vector l (int m) ndof v =
        l\<lparr>previous_vectors := ps @ [p], heap := (heap l)(p := take ndof v)\<rparr>"
      using full by (simp add: store_vector_def Let_def rot)
    have "stored (store_vector l (int m) ndof v) = map (heap l) ps @ [take ndof v]"
      unfolding st using full m1 same by (simp add: stored_def)
    moreover have "stored l = heap l p # map (heap l) ps"
      using full m1 m pv by (simp add: stored_def)
    ultimately show ?thesis
      using full by simp
  qed
qed


lemma stored_pushes:
  assumes "memory_ok l m" and "0 < m"
    and "stored l = drop (length xs - m) xs"
    and "nat (vec_in_memory l) = min (length xs) m"
    and "\<forall>v\<in>set vs. length v = ndof"
  shows "memory_ok (foldl (\<lambda>l v. store_vector l (int m) ndof v) l vs) m
         \<and> stored (foldl (\<lambda>l v. store_vector l (int m) ndof v) l vs)
             = drop (length (xs @ vs) - m) (xs @ vs)
         \<and> nat (vec_in_memory (foldl (\<lambda>l v. store_vector l (int m) ndof v) l vs))
             = min (length (xs @ vs)) m"
  using assms
proof (induction vs arbitrary: l xs)
  case Nil
  then show ?case by simp
next
  case (Cons v vs)
  let ?l1 = "store_vector l (int m) ndof v"
  note step = stored_store_vector [OF Cons.prems(1,2), of ndof v]
  have v: "take ndof v = v" using Cons.prems(5) by simp
  have lo: "1 \<le> vec_in_memory l" and hi: "vec_in_memory l \<le> int m"
    using Cons.prems(1) by (simp_all add: memory_ok_def)
  have st: "stored ?l1 = drop (length (xs @ [v]) - m) (xs @ [v])"
  proof (cases "vec_in_memory l < int m")
    case True
    then have "length xs < m" using Cons.prems(4) lo by linarith
    then show ?thesis
      using True step(1) Cons.prems(3) v by simp
  next
    case False
    then have "m \<le> length xs" using Cons.prems(4) hi by linarith
    then show ?thesis
      using False step(1) Cons.prems(2,3) v by (simp add: drop_Suc [symmetric] Suc_diff_le tl_drop)
  qed
  have cnt: "nat (vec_in_memory ?l1) = min (length (xs @ [v])) m"
    using step(3) Cons.prems(4) lo hi by (auto simp: min_def split: if_splits)
  have "\<forall>v\<in>set vs. length v = ndof" using Cons.prems(5) by simp
  from Cons.IH [OF step(2) Cons.prems(2) st cnt this]
  show ?case by simp
qed

lemma setup_locals_memory:
  assumes "anderson_is_on s" and "1 \<le> num_last_vectors_used s" and "sln_vector s = Some v0"
  shows "memory_ok (setup_locals s ndof) (nat (num_last_vectors_used s))"
    and "stored (setup_locals s ndof) = [take ndof v0]"
    and "vec_in_memory (setup_locals s ndof) = 1"
proof -
  obtain k where k: "nat (num_last_vectors_used s) = Suc k"
    using assms(2) by (cases "nat (num_last_vectors_used s)") auto
  show "memory_ok (setup_locals s ndof) (nat (num_last_vectors_used s))"
    using assms by (simp add: setup_locals_def memory_ok_def Let_def)
  have "[0..<Suc k] = 0 # [Suc 0..<Suc k]"
    by (simp add: upt_conv_Cons)
  then show "stored (setup_locals s ndof) = [take ndof v0]"
    using assms k by (simp add: setup_locals_def stored_def Let_def del: upt_Suc)
  show "vec_in_memory (setup_locals s ndof) = 1"
    by (simp add: setup_locals_def Let_def)
qed

text \<open>
  C5. With a history depth of at least one, start from the memory as \<^verbatim>\<open>solve\<close> sets it up
  (the initial vector \<open>v0\<close> stored first) and store the vectors \<open>vs\<close> one after the other,
  all of \<^verbatim>\<open>ndof\<close> entries. Then the memory never holds more than \<open>m\<close> vectors; it holds
  the last \<open>m\<close> of \<open>v0 # vs\<close> (all of them while there are fewer), oldest first; after
  \<open>m\<close> further vectors it holds exactly these; and one more store appends while the
  memory is not full, and otherwise drops the oldest vector only and appends.
\<close>

theorem history_keeps_last_vectors:
  assumes "1 \<le> num_last_vectors_used s" and "anderson_is_on s"
    and "sln_vector s = Some v0" and "length v0 = ndof"
    and "\<forall>v\<in>set vs. length v = ndof"
  shows "let m = num_last_vectors_used s;
             l = foldl (\<lambda>l v. store_vector l m ndof v) (setup_locals s ndof) vs
         in length (stored l) \<le> nat m
            \<and> stored l = drop (Suc (length vs) - nat m) (v0 # vs)
            \<and> (length vs = nat m \<longrightarrow> stored l = vs)
            \<and> (\<forall>v. length v = ndof \<longrightarrow>
                  stored (store_vector l m ndof v) =
                    (if length (stored l) < nat m then stored l @ [v]
                     else tl (stored l) @ [v]))"
proof -
  define m where "m = nat (num_last_vectors_used s)"
  define l where "l = foldl (\<lambda>l v. store_vector l (int m) ndof v) (setup_locals s ndof) vs"
  have m: "0 < m" "int m = num_last_vectors_used s"
    using assms(1) by (simp_all add: m_def)
  note init = setup_locals_memory [OF assms(2,1,3), of ndof, folded m_def]
  have "stored (setup_locals s ndof) = drop (length [v0] - m) [v0]"
    using init(2) m(1) assms(4) by simp
  moreover have "nat (vec_in_memory (setup_locals s ndof)) = min (length [v0]) m"
    using init(3) m(1) by simp
  ultimately have inv: "memory_ok l m" "stored l = drop (length ([v0] @ vs) - m) ([v0] @ vs)"
    "nat (vec_in_memory l) = min (length ([v0] @ vs)) m"
    using stored_pushes [OF init(1) m(1) _ _ assms(5), of "[v0]"] by (simp_all add: l_def)
  have len: "length (stored l) = min (Suc (length vs)) m"
    using inv(2) by simp
  have full: "vec_in_memory l < int m \<longleftrightarrow> length (stored l) < m"
    using inv(3) inv(1) len by (simp add: memory_ok_def) linarith
  have nxt: "stored (store_vector l (int m) ndof v) =
                    (if length (stored l) < m then stored l @ [v] else tl (stored l) @ [v])"
    if "length v = ndof" for v
    using stored_store_vector(1) [OF inv(1) m(1), of ndof v] that full by simp
  show ?thesis
    unfolding Let_def m(2) [symmetric] l_def [symmetric]
    using len inv(2) nxt by (simp add: Suc_diff_le)
qed

theorem history_keeps_last_vectors_witness:
  "(let s = fresh_solver\<lparr>anderson_is_on := True, sln_vector := Some [0 :: real]\<rparr>;
       l = foldl (\<lambda>l v. store_vector l 3 1 v) (setup_locals s 1) [[3], [9 / 2], [21 / 4]]
    in 1 \<le> num_last_vectors_used s \<and> anderson_is_on s \<and> sln_vector s = Some [0]
       \<and> length [0 :: real] = 1
       \<and> length [3 :: real] = 1 \<and> length [9 / 2 :: real] = 1 \<and> length [21 / 4 :: real] = 1
       \<and> length (stored l) \<le> 3
       \<and> length [[3 :: real], [9 / 2], [21 / 4]] = 3
       \<and> stored l = [[3], [9 / 2], [21 / 4]]
       \<and> length [45 / 8 :: real] = 1
       \<and> stored (store_vector l 3 1 [45 / 8]) = [[9 / 2], [21 / 4], [45 / 8]])"
  using history_keeps_last_vectors [of "fresh_solver\<lparr>anderson_is_on := True, sln_vector := Some [0 :: real]\<rparr>"
      "[0]" 1 "[[3], [9 / 2], [21 / 4]]"]
  by (simp add: fresh_solver_def init_picard_def Let_def)

section \<open>One iteration, and the loop\<close>

lemma assemble_step_eq:
  "assemble_step s l =
     (s\<lparr>jacobian_reusable := True\<rparr>,
      l\<lparr>trace := trace l @ (if jacobian_reusable s then reuse_block s else scratch_block)\<rparr>,
      scheme_of s)"
  by (simp add: assemble_step_def reuse_block_def scratch_block_def scheme_of_def)

lemma store_vector_fields:
  "it (store_vector l m ndof v) = it l"
  "trace (store_vector l m ndof v) = trace l"
  "iterates (store_vector l m ndof v) = iterates l"
  "allocated (store_vector l m ndof v) = allocated l"
  "freed (store_vector l m ndof v) = freed l"
  "last_iter_vector (store_vector l m ndof v) = last_iter_vector l"
  "anderson_coeffs (store_vector l m ndof v) = anderson_coeffs l"
  by (simp_all add: store_vector_def Let_def)

lemma compute_candidate_solver:
  assumes "compute_candidate env s l = (r, s1, l1)"
  shows "max_iter s1 = max_iter s" "tol s1 = tol s"
    "num_last_vectors_used s1 = num_last_vectors_used s"
    "anderson_beta s1 = anderson_beta s" "anderson_is_on s1 = anderson_is_on s"
    "constant_jacobian s1 = constant_jacobian s" "jacobian_reusable s1"
  using assms unfolding compute_candidate_def assemble_step_eq Let_def
  by (auto split: option.splits if_splits sum.splits)

lemma compute_candidate_locals:
  assumes "compute_candidate env s l = (r, s1, l1)"
  shows "it l1 = it l" "freed l1 = freed l" "allocated l1 = allocated l"
    "last_iter_vector l1 = last_iter_vector l"
    "trace l1 = trace l @ (if jacobian_reusable s then reuse_block s else scratch_block)
                  @ [Matrix_solver_solve]"
  using assms unfolding compute_candidate_def assemble_step_eq Let_def
  by (auto simp: store_vector_fields split: option.splits if_splits sum.splits)

lemma compute_candidate_iterates:
  assumes "compute_candidate env s l = (r, s1, l1)"
  shows "r = None \<Longrightarrow> \<exists>sln. sln_vector s1 = Some sln \<and> iterates l1 = iterates l @ [sln]"
    and "r \<noteq> None \<Longrightarrow> iterates l1 = iterates l"
  using assms unfolding compute_candidate_def assemble_step_eq Let_def
  by (auto simp: store_vector_fields split: option.splits if_splits sum.splits)

lemma picard_loop_exit:
  assumes "I s l"
    and "\<And>s l s' l'. I s l \<Longrightarrow> iteration env s l = Inr (s', l') \<Longrightarrow> I s' l'"
  shows "\<exists>s' l'. I s' l' \<and> iteration env s' l' = Inl (picard_loop env s l)"
  using assms
proof (induction env s l rule: picard_loop.induct)
  case (1 env s l)
  note pres = "1.prems"(2)
  show ?case
  proof (cases "iteration env s l")
    case (Inl r)
    then have "picard_loop env s l = r" by simp
    with Inl "1.prems"(1) show ?thesis by auto
  next
    case (Inr p)
    obtain s' l' where p: "p = (s', l')" by (cases p)
    with Inr have step: "iteration env s l = Inr (s', l')" by simp
    then have eq: "picard_loop env s l = picard_loop env s' l'" by simp
    have "I s' l'" using pres [OF "1.prems"(1) step] .
    from "1.IH" [OF Inr p [symmetric] this pres] eq show ?thesis by simp
  qed
qed


lemma output_for_the_user_kind [simp]:
  "\<not> is_assembly (output_for_the_user i ndof nrm err)"
  "output_for_the_user i ndof nrm err \<noteq> Matrix_solver_solve"
  by (simp_all add: output_for_the_user_def)

lemma release_fields:
  "it (release s l) = it l" "iterates (release s l) = iterates l"
  "allocated (release s l) = allocated l"
  "trace (release s l) = trace l @ [Info_solution_duration]"
  "freed (release s l) =
     freed l @ Last_iter_vector #
       (if anderson_is_on s then
          map (\<lambda>i. Previous_vector (previous_vectors l ! i)) [0..<nat (num_last_vectors_used s)]
            @ [Previous_vectors_array, Anderson_coeffs]
        else [])"
  by (simp_all add: release_def Let_def)

lemma finish_iteration_Inl:
  assumes "finish_iteration env s l = Inl r"
  shows "instance_after r = s"
    and "locals_at_exit r = Some (release s (l\<lparr>trace := trace l @
            [output_for_the_user (it l) (num_dofs env)
               (last_iter_vec_norm (last_iter_vector l) (num_dofs env))
               (rel_error (the (sln_vector s)) (last_iter_vector l) (num_dofs env))]\<rparr>))"
    and "outcome r = None \<or> outcome r = Some Maximum_iterations_exceeded"
    and "outcome r = None \<longleftrightarrow>
           double_less (rel_error (the (sln_vector s)) (last_iter_vector l) (num_dofs env)) (tol s)"
    and "outcome r = Some Maximum_iterations_exceeded \<Longrightarrow> max_iter s \<le> it l"
  using assms unfolding finish_iteration_def Let_def
  by (auto split: if_splits)

lemma finish_iteration_Inr:
  assumes "finish_iteration env s l = Inr (s', l')"
  shows "s' = s" "it l' = it l + 1" "it l < max_iter s"
    "freed l' = freed l" "allocated l' = allocated l" "iterates l' = iterates l"
    "previous_vectors l' = previous_vectors l"
    "trace l' = trace l @
            [output_for_the_user (it l) (num_dofs env)
               (last_iter_vec_norm (last_iter_vector l) (num_dofs env))
               (rel_error (the (sln_vector s)) (last_iter_vector l) (num_dofs env))]"
    "\<not> double_less (rel_error (the (sln_vector s)) (last_iter_vector l) (num_dofs env)) (tol s)"
  using assms unfolding finish_iteration_def Let_def
  by (auto split: if_splits)

lemma store_vector_pointers:
  assumes "length (previous_vectors l) = m" and "0 < m"
  shows "length (previous_vectors (store_vector l (int m) ndof v)) = m"
    and "mset (previous_vectors (store_vector l (int m) ndof v)) = mset (previous_vectors l)"
proof -
  obtain p ps where pv: "previous_vectors l = p # ps"
    using assms by (cases "previous_vectors l") auto
  show "length (previous_vectors (store_vector l (int m) ndof v)) = m"
    using assms pv by (simp add: store_vector_def Let_def shift_pointers_rotate)
  show "mset (previous_vectors (store_vector l (int m) ndof v)) = mset (previous_vectors l)"
    using assms pv by (simp add: store_vector_def Let_def shift_pointers_rotate)
qed

lemma compute_candidate_pointers:
  assumes "compute_candidate env s l = (r, s1, l1)"
    and "anderson_is_on s" and "1 \<le> num_last_vectors_used s"
    and "length (previous_vectors l) = nat (num_last_vectors_used s)"
  shows "length (previous_vectors l1) = nat (num_last_vectors_used s)"
    and "mset (previous_vectors l1) = mset (previous_vectors l)"
proof -
  define m where "m = nat (num_last_vectors_used s)"
  have m: "0 < m" "num_last_vectors_used s = int m"
    using assms(3) by (simp_all add: m_def)
  have len: "length (previous_vectors (l\<lparr>trace := tr\<rparr>)) = m" for tr
    using assms(4) by (simp add: m_def)
  note sv = store_vector_pointers [OF len m(1)]
  show "length (previous_vectors l1) = nat (num_last_vectors_used s)"
    using assms(1,2) sv(1) assms(4) unfolding compute_candidate_def assemble_step_eq Let_def m(2)
    by (auto simp: m_def [symmetric] split: option.splits if_splits sum.splits)
  show "mset (previous_vectors l1) = mset (previous_vectors l)"
    using assms(1,2) sv(2) unfolding compute_candidate_def assemble_step_eq Let_def m(2)
    by (auto split: option.splits if_splits sum.splits)
qed


lemma filter_is_assembly_blocks [simp]:
  "filter is_assembly (reuse_block s) = reuse_block s"
  "filter is_assembly scratch_block = scratch_block"
  by (simp_all add: reuse_block_def scratch_block_def)

lemma solves_simps [simp]:
  "solves [] = 0"
  "solves (e # tr) = (if e = Matrix_solver_solve then Suc (solves tr) else solves tr)"
  "solves (xs @ ys) = solves xs + solves ys"
  "solves (reuse_block s) = 0" "solves scratch_block = 0"
  by (simp_all add: solves_def reuse_block_def scratch_block_def)

lemma reuse_block_config: "same_config s0 s \<Longrightarrow> reuse_block s = reuse_block s0"
  by (simp add: same_config_def reuse_block_def)

lemma iteration_Inr_cases:
  assumes "iteration env s l = Inr (s', l')"
  obtains l1 where "compute_candidate env s l = (None, s', l1)"
    and "finish_iteration env s' l1 = Inr (s', l')"
proof -
  obtain r s1 l1 where cc: "compute_candidate env s l = (r, s1, l1)"
    by (cases "compute_candidate env s l")
  with assms have "r = None" and fin: "finish_iteration env s1 l1 = Inr (s', l')"
    by (auto simp: iteration_def split: option.splits)
  moreover have "s' = s1" using finish_iteration_Inr(1) [OF fin] .
  ultimately show ?thesis using cc that by simp
qed

lemma loop_inv_step:
  assumes inv: "loop_inv s0 s l" and step: "iteration env s l = Inr (s', l')"
  shows "loop_inv s0 s' l'"
proof -
  from step obtain l1 where cc: "compute_candidate env s l = (None, s', l1)"
    and fin: "finish_iteration env s' l1 = Inr (s', l')"
    by (rule iteration_Inr_cases)
  note cs = compute_candidate_solver [OF cc]
  note cl = compute_candidate_locals [OF cc]
  note ci = compute_candidate_iterates(1) [OF cc refl]
  note fi = finish_iteration_Inr [OF fin]
  from inv have cfg: "same_config s0 s" and it1: "1 \<le> it l"
    by (simp_all add: loop_inv_def)
  have cfg': "same_config s0 s'"
    using cfg cs by (simp add: same_config_def)
  have ptr: "length (previous_vectors l') = nat (num_last_vectors_used s0)
             \<and> mset (previous_vectors l') = mset [0..<nat (num_last_vectors_used s0)]"
    if a: "anderson_is_on s0"
  proof -
    from inv a have 1: "1 \<le> num_last_vectors_used s0"
      and 2: "length (previous_vectors l) = nat (num_last_vectors_used s0)"
      and 3: "mset (previous_vectors l) = mset [0..<nat (num_last_vectors_used s0)]"
      by (simp_all add: loop_inv_def)
    have on: "anderson_is_on s" and nl: "num_last_vectors_used s = num_last_vectors_used s0"
      using cfg a by (simp_all add: same_config_def)
    from compute_candidate_pointers [OF cc on] 1 2 3 nl fi(7) show ?thesis by simp
  qed
  have asm: "filter is_assembly (trace l') =
      (if jacobian_reusable s0 then reuse_block s0 else scratch_block)
        @ concat (replicate (nat (it l' - 2)) (reuse_block s0))"
  proof (cases "it l = 1")
    case True
    with inv have "jacobian_reusable s = jacobian_reusable s0" "filter is_assembly (trace l) = []"
      by (simp_all add: loop_inv_def)
    then show ?thesis
      using True fi(2,8) cl(1,5) reuse_block_config [OF cfg] by simp
  next
    case False
    with inv have jr: "jacobian_reusable s" and tr: "filter is_assembly (trace l) =
        (if jacobian_reusable s0 then reuse_block s0 else scratch_block)
          @ concat (replicate (nat (it l - 2)) (reuse_block s0))"
      by (simp_all add: loop_inv_def)
    have "nat (it l + 1 - 2) = Suc (nat (it l - 2))"
      using it1 False by simp
    moreover have "concat (replicate n b) @ b = concat (replicate (Suc n) b)" for n and b :: "event list"
      by (induction n) simp_all
    ultimately show ?thesis
      using jr tr fi(2,8) cl(1,5) reuse_block_config [OF cfg] by simp
  qed
  from ci obtain sln where sln: "iterates l1 = iterates l @ [sln]" by blast
  show ?thesis
    unfolding loop_inv_def
  proof (intro conjI)
    show "same_config s0 s'" by (rule cfg')
    show "1 \<le> it l'" using fi(2) cl(1) it1 by simp
    show "it l' \<le> max 1 (max_iter s0)" using fi(2,3) cl(1) cfg' by (simp add: same_config_def)
    show "if it l' = 1 then jacobian_reusable s' = jacobian_reusable s0 else jacobian_reusable s'"
      using fi(2) cl(1) it1 cs(7) by simp
    show "freed l' = []" using inv fi(4) cl(2) by (simp add: loop_inv_def)
    show "allocated l' = allocated_by s0" using inv fi(5) cl(3) by (simp add: loop_inv_def)
    show "anderson_is_on s0 \<longrightarrow>
          1 \<le> num_last_vectors_used s0
          \<and> length (previous_vectors l') = nat (num_last_vectors_used s0)
          \<and> mset (previous_vectors l') = mset [0..<nat (num_last_vectors_used s0)]"
      using ptr inv by (simp add: loop_inv_def)
    show "int (length (iterates l')) = it l' - 1"
      using inv fi(2,6) cl(1) sln by (simp add: loop_inv_def)
    show "int (solves (trace l')) = it l' - 1"
      using inv fi(2,8) cl(1,5) by (simp add: loop_inv_def)
    show "filter is_assembly (trace l') =
          (if it l' = 1 then []
           else (if jacobian_reusable s0 then reuse_block s0 else scratch_block)
                  @ concat (replicate (nat (it l' - 2)) (reuse_block s0)))"
      using asm fi(2) cl(1) it1 by simp
  qed
qed

lemma loop_inv_setup:
  assumes "anderson_is_on s \<longrightarrow> 1 \<le> num_last_vectors_used s"
  shows "loop_inv s s (setup_locals s ndof)"
  using assms
  by (simp add: loop_inv_def same_config_def setup_locals_def Let_def allocated_by_def solves_def)


lemma calculate_anderson_coeffs_Inl:
  "calculate_anderson_coeffs env pv c m ndof = Inl e \<longleftrightarrow>
     m \<le> 1 \<and> e = Anderson_needs_two_iterations"
  by (auto simp: calculate_anderson_coeffs_def Let_def case_prod_beta)

lemma compute_candidate_throw:
  assumes "compute_candidate env s l = (Some e, s1, l1)"
  shows "(e = LinearMatrixSolverException
            \<and> matrix_solve env (it l) (scheme_of s) (last_iter_vector l) = None)
         \<or> (e = Anderson_needs_two_iterations \<and> anderson_is_on s
            \<and> num_last_vectors_used s \<le> 1
            \<and> matrix_solve env (it l) (scheme_of s) (last_iter_vector l) \<noteq> None)"
  using assms unfolding compute_candidate_def assemble_step_eq Let_def
  by (auto simp: calculate_anderson_coeffs_Inl split: option.splits if_splits sum.splits)

lemma iteration_Inl_cases:
  assumes "iteration env s l = Inl r"
  obtains (throw) e s1 l1 where "compute_candidate env s l = (Some e, s1, l1)"
      and "r = \<lparr>outcome = Some e, instance_after = s1, locals_at_exit = Some l1\<rparr>"
    | (stop) s1 l1 where "compute_candidate env s l = (None, s1, l1)"
      and "finish_iteration env s1 l1 = Inl r"
proof -
  obtain x s1 l1 where cc: "compute_candidate env s l = (x, s1, l1)"
    by (cases "compute_candidate env s l")
  show ?thesis
  proof (cases x)
    case None
    with cc assms show ?thesis by (intro stop [of s1 l1]) (simp_all add: iteration_def)
  next
    case (Some e)
    with cc assms show ?thesis by (intro throw [of e s1 l1]) (simp_all add: iteration_def)
  qed
qed

lemma freed_all:
  assumes "length pv = m" and "mset pv = mset [0..<m]"
  shows "mset (map (\<lambda>i. Previous_vector (pv ! i)) [0..<m]) = mset (map Previous_vector [0..<m])"
proof -
  have "map (\<lambda>i. Previous_vector (pv ! i)) [0..<m] = map Previous_vector (map ((!) pv) [0..<m])"
    by simp
  also have "map ((!) pv) [0..<m] = pv"
    using map_nth [of pv] assms(1) by simp
  finally show ?thesis
    using assms(2) by (metis mset_map)
qed

lemma exit_summary:
  assumes inv: "loop_inv s0 s l" and ex: "iteration env s l = Inl r"
  shows "\<exists>le. locals_at_exit r = Some le \<and> it le = it l
           \<and> same_config s0 (instance_after r) \<and> jacobian_reusable (instance_after r)
           \<and> allocated le = allocated_by s0
           \<and> int (solves (trace le)) = it l
           \<and> filter is_assembly (trace le) =
                (if jacobian_reusable s0 then reuse_block s0 else scratch_block)
                  @ concat (replicate (nat (it l - 1)) (reuse_block s0))
           \<and> (if outcome r = None \<or> outcome r = Some Maximum_iterations_exceeded
               then mset (freed le) = mset (allocated le)
                    \<and> int (length (iterates le)) = it l
                    \<and> sln_vector (instance_after r) = Some (last (iterates le))
               else freed le = [] \<and> int (length (iterates le)) = it l - 1)
           \<and> (outcome r = Some Maximum_iterations_exceeded \<longrightarrow> it l = max 1 (max_iter s0))"
proof -
  from inv have cfg: "same_config s0 s" and it1: "1 \<le> it l" and itm: "it l \<le> max 1 (max_iter s0)"
    by (simp_all add: loop_inv_def)
  define blk where "blk = (if jacobian_reusable s then reuse_block s else scratch_block)"
  define all_blocks where "all_blocks =
     (if jacobian_reusable s0 then reuse_block s0 else scratch_block)
       @ concat (replicate (nat (it l - 1)) (reuse_block s0))"
  have blk: "filter is_assembly blk = blk" "solves blk = 0"
    by (simp_all add: blk_def)
  have blocks: "filter is_assembly (trace l) @ blk = all_blocks"
  proof (cases "it l = 1")
    case True
    with inv have "jacobian_reusable s = jacobian_reusable s0" "filter is_assembly (trace l) = []"
      by (simp_all add: loop_inv_def)
    then show ?thesis
      using True reuse_block_config [OF cfg] by (simp add: blk_def all_blocks_def)
  next
    case False
    with inv have jr: "jacobian_reusable s" and tr: "filter is_assembly (trace l) =
        (if jacobian_reusable s0 then reuse_block s0 else scratch_block)
          @ concat (replicate (nat (it l - 2)) (reuse_block s0))"
      by (simp_all add: loop_inv_def)
    have "nat (it l - 1) = Suc (nat (it l - 2))"
      using it1 False by simp
    moreover have "concat (replicate n b) @ b = concat (replicate (Suc n) b)" for n and b :: "event list"
      by (induction n) simp_all
    ultimately show ?thesis
      using jr tr reuse_block_config [OF cfg] by (simp add: blk_def all_blocks_def)
  qed
  from inv have fr: "freed l = []" and al: "allocated l = allocated_by s0"
    and il: "int (length (iterates l)) = it l - 1" and sl: "int (solves (trace l)) = it l - 1"
    by (simp_all add: loop_inv_def)
  from ex show ?thesis
  proof (cases rule: iteration_Inl_cases)
    case (throw e s1 l1)
    note cs = compute_candidate_solver [OF throw(1)]
    note cl = compute_candidate_locals [OF throw(1), folded blk_def]
    have ci: "iterates l1 = iterates l"
      using compute_candidate_iterates(2) [OF throw(1)] by simp
    have e: "e \<noteq> Maximum_iterations_exceeded"
      using compute_candidate_throw [OF throw(1)] by auto
    have cfg1: "same_config s0 s1" using cfg cs by (simp add: same_config_def)
    have asm: "filter is_assembly (trace l1) = all_blocks"
      using blocks cl(5) blk by simp
    have "int (solves (trace l1)) = it l"
      using sl cl(5) blk by simp
    then show ?thesis
      using throw(2) cs(7) cl(1,2,3) fr al il e ci cfg1 asm
      by (simp add: all_blocks_def [symmetric])
  next
    case (stop s1 l1)
    note cs = compute_candidate_solver [OF stop(1)]
    note cl = compute_candidate_locals [OF stop(1), folded blk_def]
    from compute_candidate_iterates(1) [OF stop(1) refl]
    obtain sln where sln: "sln_vector s1 = Some sln" "iterates l1 = iterates l @ [sln]"
      by blast
    note fi = finish_iteration_Inl [OF stop(2)]
    have cfg1: "same_config s0 s1" using cfg cs by (simp add: same_config_def)
    define le where "le = release s1 (l1\<lparr>trace := trace l1 @
            [output_for_the_user (it l1) (num_dofs env)
               (last_iter_vec_norm (last_iter_vector l1) (num_dofs env))
               (rel_error (the (sln_vector s1)) (last_iter_vector l1) (num_dofs env))]\<rparr>)"
    have le: "locals_at_exit r = Some le" using fi(2) by (simp add: le_def)
    have freed: "mset (freed le) = mset (allocated le)"
    proof (cases "anderson_is_on s0")
      case True
      with inv have 1: "1 \<le> num_last_vectors_used s0"
        and 2: "length (previous_vectors l) = nat (num_last_vectors_used s0)"
        and 3: "mset (previous_vectors l) = mset [0..<nat (num_last_vectors_used s0)]"
        by (simp_all add: loop_inv_def)
      have on: "anderson_is_on s" and nl: "num_last_vectors_used s = num_last_vectors_used s0"
        using cfg True by (simp_all add: same_config_def)
      from compute_candidate_pointers [OF stop(1) on] 1 2 3 nl
      have "length (previous_vectors l1) = nat (num_last_vectors_used s0)"
        "mset (previous_vectors l1) = mset [0..<nat (num_last_vectors_used s0)]"
        by simp_all
      from freed_all [OF this] show ?thesis
        using True fr al cl(2,3) cfg1
        by (simp add: le_def release_fields allocated_by_def same_config_def)
    next
      case False
      then show ?thesis
        using fr al cl(2,3) cfg1
        by (simp add: le_def release_fields allocated_by_def same_config_def)
    qed
    have mx: "it l = max 1 (max_iter s0)" if "outcome r = Some Maximum_iterations_exceeded"
      using fi(5) [OF that] cl(1) cfg1 it1 itm by (simp add: same_config_def)
    have asm: "filter is_assembly (trace le) = all_blocks"
      using blocks cl(5) blk by (simp add: le_def release_fields)
    have sv: "int (solves (trace le)) = it l"
      using sl cl(5) blk by (simp add: le_def release_fields)
    have its: "int (length (iterates le)) = it l" "last (iterates le) = sln"
      using il sln(2) by (simp_all add: le_def release_fields)
    have "it le = it l" "allocated le = allocated_by s0"
      using cl(1,3) al by (simp_all add: le_def release_fields)
    then show ?thesis
      unfolding all_blocks_def [symmetric]
      using le fi(1,3) cfg1 cs(7) sln(1) freed mx asm sv its by auto
  qed
qed

lemma init_solving_Inr:
  assumes "init_solving env s ndof cv = Inr s1"
  shows "nonlinear_solver_isOkay env" "1 \<le> num_last_vectors_used s"
    "s1 = s\<lparr>sln_vector := Some (case cv of None \<Rightarrow> replicate ndof 0 | Some v \<Rightarrow> take ndof v)\<rparr>"
  using assms
  by (auto simp: init_solving_def check_def isOkay_def split: option.splits if_splits sum.splits)

lemma solve_exit:
  assumes "init_solving env s (num_dofs env) cv = Inr s1"
  shows "\<exists>s' l'. loop_inv s1 s' l' \<and> iteration env s' l' = Inl (solve env s cv)"
proof -
  have "loop_inv s1 s1 (setup_locals s1 (num_dofs env))"
    using init_solving_Inr [OF assms] by (intro loop_inv_setup) simp
  from picard_loop_exit [of "loop_inv s1", OF this loop_inv_step]
  show ?thesis using assms by (simp add: solve_def)
qed

section \<open>A whole call of \<^verbatim>\<open>solve\<close>\<close>

lemma solve_validation_failed:
  assumes "init_solving env s (num_dofs env) cv = Inl e"
  shows "solve env s cv = \<lparr>outcome = Some e, instance_after = s, locals_at_exit = None\<rparr>"
  using assms by (simp add: solve_def)

lemma solve_summary:
  assumes "locals_at_exit (solve env s cv) = Some le"
  shows "1 \<le> it le" "it le \<le> max 1 (max_iter s)"
    and "jacobian_reusable (instance_after (solve env s cv))"
    and "allocated le = allocated_by s"
    and "int (solves (trace le)) = it le"
    and "filter is_assembly (trace le) =
                (if jacobian_reusable s then reuse_block s else scratch_block)
                  @ concat (replicate (nat (it le - 1)) (reuse_block s))"
    and "if outcome (solve env s cv) = None
            \<or> outcome (solve env s cv) = Some Maximum_iterations_exceeded
         then mset (freed le) = mset (allocated le)
              \<and> int (length (iterates le)) = it le
              \<and> sln_vector (instance_after (solve env s cv)) = Some (last (iterates le))
         else freed le = [] \<and> int (length (iterates le)) = it le - 1"
    and "outcome (solve env s cv) = Some Maximum_iterations_exceeded \<Longrightarrow> it le = max 1 (max_iter s)"
proof -
  obtain s1 where init: "init_solving env s (num_dofs env) cv = Inr s1"
    using assms by (cases "init_solving env s (num_dofs env) cv") (simp_all add: solve_def)
  note s1 = init_solving_Inr(3) [OF init]
  from solve_exit [OF init] obtain s' l' where inv: "loop_inv s1 s' l'"
    and ex: "iteration env s' l' = Inl (solve env s cv)"
    by blast
  have bounds: "1 \<le> it l'" "it l' \<le> max 1 (max_iter s1)"
    using inv by (simp_all add: loop_inv_def)
  have eqs: "allocated_by s1 = allocated_by s" "reuse_block s1 = reuse_block s"
    "jacobian_reusable s1 = jacobian_reusable s" "max_iter s1 = max_iter s"
    by (simp_all add: s1 allocated_by_def reuse_block_def)
  from exit_summary [OF inv ex] assms bounds
  show "1 \<le> it le" "it le \<le> max 1 (max_iter s)"
    and "jacobian_reusable (instance_after (solve env s cv))"
    and "allocated le = allocated_by s"
    and "int (solves (trace le)) = it le"
    and "filter is_assembly (trace le) =
                (if jacobian_reusable s then reuse_block s else scratch_block)
                  @ concat (replicate (nat (it le - 1)) (reuse_block s))"
    and "if outcome (solve env s cv) = None
            \<or> outcome (solve env s cv) = Some Maximum_iterations_exceeded
         then mset (freed le) = mset (allocated le)
              \<and> int (length (iterates le)) = it le
              \<and> sln_vector (instance_after (solve env s cv)) = Some (last (iterates le))
         else freed le = [] \<and> int (length (iterates le)) = it le - 1"
    and "outcome (solve env s cv) = Some Maximum_iterations_exceeded \<Longrightarrow> it le = max 1 (max_iter s)"
    unfolding eqs by auto
qed

lemma solve_mid_solve_outcome:
  assumes "locals_at_exit (solve env s cv) = None"
  shows "\<exists>e. init_solving env s (num_dofs env) cv = Inl e \<and> outcome (solve env s cv) = Some e"
proof (cases "init_solving env s (num_dofs env) cv")
  case (Inl e)
  then show ?thesis by (simp add: solve_def)
next
  case (Inr s1)
  from solve_exit [OF Inr] obtain s' l' where inv: "loop_inv s1 s' l'"
    and ex: "iteration env s' l' = Inl (solve env s cv)"
    by blast
  from exit_summary [OF inv ex] assms show ?thesis by auto
qed

subsection \<open>Runs of the scalar example\<close>

lemma sqrt_9: "sqrt 9 = 3"
  by (rule real_sqrt_unique) simp_all

lemmas run_defs = solve_def init_solving_def check_def isOkay_def setup_locals_def
  iteration_def compute_candidate_def assemble_step_def finish_iteration_def release_def
  rel_error_def abs_error_def last_iter_vec_norm_def double_div_def output_for_the_user_def
  fresh_solver_def init_picard_def scalar_env_def store_vector_def Let_def

text \<open>One iteration allowed: the iterate \<open>3\<close> is computed and the limit is reported.\<close>

lemma scalar_one_iteration:
  "solve scalar_env (fresh_solver\<lparr>max_iter := 1, tol := 1 / 10 ^ 9\<rparr>) None =
    \<lparr>outcome = Some Maximum_iterations_exceeded,
     instance_after = fresh_solver\<lparr>max_iter := 1, tol := 1 / 10 ^ 9, jacobian_reusable := True, sln_vector := Some [3]\<rparr>,
     locals_at_exit = Some \<lparr>last_iter_vector = [0], previous_vectors = [], heap = (\<lambda>a. []),
        anderson_coeffs = [], it = 1, vec_in_memory = 1,
        trace = [Assemble_jacobian_and_residual, Set_factorization_scheme HERMES_FACTORIZE_FROM_SCRATCH,
                 Matrix_solver_solve, Info_starting_from_zero_vector 1 1, Info_solution_duration],
        iterates = [[3]], allocated = [Last_iter_vector], freed = [Last_iter_vector]\<rparr>\<rparr>"
  by (simp add: run_defs picard_loop.simps sqrt_9)


text \<open>Two iterations allowed: \<open>3\<close>, then \<open>9/2\<close> with a relative error of 50 per cent.\<close>

lemma scalar_two_iterations:
  "locals_at_exit (solve scalar_env (fresh_solver\<lparr>max_iter := 2\<rparr>) None) =
     Some \<lparr>last_iter_vector = [3], previous_vectors = [], heap = (\<lambda>a. []),
        anderson_coeffs = [], it = 2, vec_in_memory = 1,
        trace = [Assemble_jacobian_and_residual, Set_factorization_scheme HERMES_FACTORIZE_FROM_SCRATCH,
                 Matrix_solver_solve, Info_starting_from_zero_vector 1 1,
                 Set_factorization_scheme HERMES_REUSE_MATRIX_REORDERING_AND_SCALING, Assemble_jacobian_and_residual,
                 Matrix_solver_solve, Info_relative_error 2 1 (Finite 50),
                 Info_solution_duration],
        iterates = [[3], [9 / 2]], allocated = [Last_iter_vector], freed = [Last_iter_vector]\<rparr>"
  by (simp add: run_defs picard_loop.simps sqrt_9 real_sqrt_divide)


subsection \<open>Factorization schemes\<close>

text \<open>
  C6, as the code has it. In a call of \<^verbatim>\<open>solve\<close> that gets past validation, the assembly
  events are: for the first iteration the from-scratch block (matrix and residual
  assembled, \<^verbatim>\<open>HERMES_FACTORIZE_FROM_SCRATCH\<close>) when the instance was entered with
  \<open>jacobian_reusable\<close> unset, and the reuse block when it was entered with the flag set;
  for each later iteration the reuse block, which for a constant Jacobian assembles the
  residual only and reuses the factorization completely, and otherwise assembles both and
  reuses reordering and scaling. The flag is set when the call ends.
\<close>

theorem factorization_schemes:
  assumes "locals_at_exit (solve env s cv) = Some l"
  shows "1 \<le> it l
         \<and> filter is_assembly (trace l) =
             (if jacobian_reusable s then reuse_block s else scratch_block)
               @ concat (replicate (nat (it l - 1)) (reuse_block s))
         \<and> jacobian_reusable (instance_after (solve env s cv))"
  using solve_summary(1,3,6) [OF assms] by simp

theorem factorization_schemes_witness:
  "(let r = solve scalar_env (fresh_solver\<lparr>max_iter := 2\<rparr>) None
    in \<exists>l. locals_at_exit r = Some l \<and> 1 \<le> it l
         \<and> filter is_assembly (trace l) =
              [Assemble_jacobian_and_residual,
               Set_factorization_scheme HERMES_FACTORIZE_FROM_SCRATCH,
               Set_factorization_scheme HERMES_REUSE_MATRIX_REORDERING_AND_SCALING,
               Assemble_jacobian_and_residual]
         \<and> jacobian_reusable (instance_after r))"
  using factorization_schemes [OF scalar_two_iterations]
  by (simp add: scalar_two_iterations output_for_the_user_def)

text \<open>
  The first iteration is not always from scratch: \<^verbatim>\<open>solve\<close> never clears
  \<open>jacobian_reusable\<close>, so a second call on the same instance starts with the reuse block.
  Here each linear solve returns the vector it was assembled at, and both calls converge in
  their first iteration.
\<close>

theorem second_solve_reuses:
  "(let env = scalar_env\<lparr>matrix_solve := (\<lambda>it scheme v. Some v)\<rparr>;
        r1 = solve env fresh_solver (Some [1]);
        r2 = solve env (instance_after r1) (Some [1])
    in outcome r1 = None \<and> outcome r2 = None
       \<and> map_option (filter is_assembly \<circ> trace) (locals_at_exit r2)
          = Some [Set_factorization_scheme HERMES_REUSE_MATRIX_REORDERING_AND_SCALING,
                  Assemble_jacobian_and_residual])"
  by (simp add: run_defs picard_loop.simps)

subsection \<open>Reaching the iteration limit\<close>

lemma distinct_allocated_by: "distinct (allocated_by s)"
  by (auto simp: allocated_by_def distinct_map inj_on_def)

lemma first_iteration_stops:
  assumes init: "init_solving env s (num_dofs env) cv = Inr s1"
    and cc: "compute_candidate env s1 (setup_locals s1 (num_dofs env)) = (None, s2, l2)"
    and nc: "\<not> double_less (rel_error (the (sln_vector s2)) (last_iter_vector l2) (num_dofs env)) (tol s)"
    and mx: "max_iter s \<le> 1"
  shows "outcome (solve env s cv) = Some Maximum_iterations_exceeded"
    and "instance_after (solve env s cv) = s2"
    and "map_option iterates (locals_at_exit (solve env s cv)) = Some [the (sln_vector s2)]"
    and "map_option it (locals_at_exit (solve env s cv)) = Some 1"
proof -
  note s1 = init_solving_Inr(3) [OF init]
  note cs = compute_candidate_solver [OF cc]
  note cl = compute_candidate_locals [OF cc]
  from compute_candidate_iterates(1) [OF cc refl]
  have its: "iterates l2 = [the (sln_vector s2)]"
    by (auto simp: setup_locals_def Let_def)
  have it2: "it l2 = 1" using cl(1) by (simp add: setup_locals_def Let_def)
  have cfg: "tol s2 = tol s" "max_iter s2 = max_iter s"
    using cs by (simp_all add: s1)
  have "solve env s cv = picard_loop env s1 (setup_locals s1 (num_dofs env))"
    using init by (simp add: solve_def)
  also have "\<dots> = \<lparr>outcome = Some Maximum_iterations_exceeded, instance_after = s2,
       locals_at_exit = Some (release s2 (l2\<lparr>trace := trace l2 @
            [output_for_the_user (it l2) (num_dofs env)
               (last_iter_vec_norm (last_iter_vector l2) (num_dofs env))
               (rel_error (the (sln_vector s2)) (last_iter_vector l2) (num_dofs env))]\<rparr>))\<rparr>"
    using cc nc mx it2 cfg
    by (subst picard_loop.simps) (simp add: iteration_def finish_iteration_def Let_def)
  finally show "outcome (solve env s cv) = Some Maximum_iterations_exceeded"
    and "instance_after (solve env s cv) = s2"
    and "map_option iterates (locals_at_exit (solve env s cv)) = Some [the (sln_vector s2)]"
    and "map_option it (locals_at_exit (solve env s cv)) = Some 1"
    using its it2 by (simp_all add: release_fields)
qed

lemma loop_head_picard_loop:
  "loop_head env s l n = Some (s', l') \<Longrightarrow> picard_loop env s l = picard_loop env s' l'"
proof (induction n arbitrary: s l)
  case 0
  then show ?case by simp
next
  case (Suc n)
  from Suc.prems obtain s1 l1 where step: "iteration env s l = Inr (s1, l1)"
    and rest: "loop_head env s1 l1 n = Some (s', l')"
    by (auto split: sum.splits)
  from step have "picard_loop env s l = picard_loop env s1 l1"
    by simp
  with Suc.IH [OF rest] show ?case by simp
qed

lemma loop_head_inv:
  "loop_inv s0 s l \<Longrightarrow> loop_head env s l n = Some (s', l') \<Longrightarrow>
     loop_inv s0 s' l' \<and> it l' = it l + int n"
proof (induction n arbitrary: s l)
  case 0
  then show ?case by simp
next
  case (Suc n)
  from Suc.prems(2) obtain s1 l1 where step: "iteration env s l = Inr (s1, l1)"
    and rest: "loop_head env s1 l1 n = Some (s', l')"
    by (auto split: sum.splits)
  have inv1: "loop_inv s0 s1 l1"
    using Suc.prems(1) step by (rule loop_inv_step)
  have "it l1 = it l + 1"
  proof -
    from step obtain l2 where "finish_iteration env s1 l2 = Inr (s1, l1)"
      and "compute_candidate env s l = (None, s1, l2)"
      by (rule iteration_Inr_cases)
    then show ?thesis
      using finish_iteration_Inr(2) compute_candidate_locals(1) by metis
  qed
  with Suc.IH [OF inv1 rest] show ?case by simp
qed

lemma last_iteration_stops:
  assumes init: "init_solving env s (num_dofs env) cv = Inr s1"
    and head: "loop_head env s1 (setup_locals s1 (num_dofs env)) n = Some (sh, lh)"
    and mx: "max_iter s \<le> it lh"
    and cc: "compute_candidate env sh lh = (None, sc, lc)"
    and nc: "\<not> double_less (rel_error (the (sln_vector sc)) (last_iter_vector lc) (num_dofs env)) (tol s)"
  shows "outcome (solve env s cv) = Some Maximum_iterations_exceeded"
    and "instance_after (solve env s cv) = sc"
    and "map_option iterates (locals_at_exit (solve env s cv)) = Some (iterates lc)"
    and "it lh = int n + 1"
proof -
  note i = init_solving_Inr [OF init]
  have inv0: "loop_inv s1 s1 (setup_locals s1 (num_dofs env))"
    using i by (intro loop_inv_setup) simp
  from loop_head_inv [OF inv0 head]
  have inv: "loop_inv s1 sh lh" and itn: "it lh = it (setup_locals s1 (num_dofs env)) + int n"
    by simp_all
  show "it lh = int n + 1"
    using itn by (simp add: setup_locals_def Let_def)
  note cs = compute_candidate_solver [OF cc]
  note cl = compute_candidate_locals [OF cc]
  have cfg: "tol sc = tol s" "max_iter sc = max_iter s"
    using inv cs by (simp_all add: loop_inv_def same_config_def i(3))
  have "solve env s cv = picard_loop env s1 (setup_locals s1 (num_dofs env))"
    using init by (simp add: solve_def del: picard_loop.simps)
  also have "\<dots> = picard_loop env sh lh"
    using head by (rule loop_head_picard_loop)
  also have "\<dots> = \<lparr>outcome = Some Maximum_iterations_exceeded, instance_after = sc,
       locals_at_exit = Some (release sc (lc\<lparr>trace := trace lc @
            [output_for_the_user (it lc) (num_dofs env)
               (last_iter_vec_norm (last_iter_vector lc) (num_dofs env))
               (rel_error (the (sln_vector sc)) (last_iter_vector lc) (num_dofs env))]\<rparr>))\<rparr>"
    using cc nc mx cl(1) cfg
    by (subst picard_loop.simps) (simp add: iteration_def finish_iteration_def Let_def)
  finally show "outcome (solve env s cv) = Some Maximum_iterations_exceeded"
    and "instance_after (solve env s cv) = sc"
    and "map_option iterates (locals_at_exit (solve env s cv)) = Some (iterates lc)"
    by (simp_all add: release_fields)
qed

text \<open>
  C4. When \<^verbatim>\<open>solve\<close> throws because the iteration limit is reached, everything it
  allocated has been freed, each array once; the loop ran \<open>max_iter\<close> iterations (one if
  \<open>max_iter\<close> is below one), with as many linear solves and iterates; and \<open>sln_vector\<close>
  still holds the last iterate. With \<open>max_iter = 1\<close>, if the first iteration produces its
  iterate and the relative error is not below \<open>tol\<close>, the call ends in this way after
  that one iteration. In general, if the loop goes round \<open>n\<close> times and reaches an
  iteration whose number is at least \<open>max_iter\<close>, and that iteration produces its iterate
  with a relative error not below \<open>tol\<close>, then the call ends in this way, in iteration
  \<open>n + 1\<close>, with that iterate in \<open>sln_vector\<close>.
\<close>

theorem maximum_iterations_exceeded:
  "(outcome (solve env s cv) = Some Maximum_iterations_exceeded \<longrightarrow>
      (\<exists>l. locals_at_exit (solve env s cv) = Some l
         \<and> allocated l = allocated_by s \<and> distinct (allocated l)
         \<and> mset (freed l) = mset (allocated l)
         \<and> it l = max 1 (max_iter s)
         \<and> int (solves (trace l)) = it l
         \<and> int (length (iterates l)) = it l
         \<and> sln_vector (instance_after (solve env s cv)) = Some (last (iterates l))))
   \<and> (max_iter s = 1
        \<and> init_solving env s (num_dofs env) cv = Inr s1
        \<and> compute_candidate env s1 (setup_locals s1 (num_dofs env)) = (None, s2, l2)
        \<and> \<not> double_less (rel_error (the (sln_vector s2)) (last_iter_vector l2) (num_dofs env)) (tol s)
      \<longrightarrow> outcome (solve env s cv) = Some Maximum_iterations_exceeded
          \<and> sln_vector (instance_after (solve env s cv)) = sln_vector s2
          \<and> map_option iterates (locals_at_exit (solve env s cv)) = Some [the (sln_vector s2)])
   \<and> (init_solving env s (num_dofs env) cv = Inr s1
        \<and> loop_head env s1 (setup_locals s1 (num_dofs env)) n = Some (sh, lh)
        \<and> max_iter s \<le> it lh
        \<and> compute_candidate env sh lh = (None, sc, lc)
        \<and> \<not> double_less (rel_error (the (sln_vector sc)) (last_iter_vector lc) (num_dofs env)) (tol s)
      \<longrightarrow> outcome (solve env s cv) = Some Maximum_iterations_exceeded
          \<and> it lh = int n + 1
          \<and> sln_vector (instance_after (solve env s cv)) = sln_vector sc
          \<and> map_option iterates (locals_at_exit (solve env s cv)) = Some (iterates lc))"
proof (intro conjI impI)
  assume mx: "outcome (solve env s cv) = Some Maximum_iterations_exceeded"
  obtain l where l: "locals_at_exit (solve env s cv) = Some l"
    using solve_mid_solve_outcome [of env s cv] mx
    by (cases "locals_at_exit (solve env s cv)")
       (auto simp: init_solving_def check_def isOkay_def split: option.splits if_splits sum.splits)
  note sm = solve_summary [OF l]
  show "\<exists>l. locals_at_exit (solve env s cv) = Some l
         \<and> allocated l = allocated_by s \<and> distinct (allocated l)
         \<and> mset (freed l) = mset (allocated l)
         \<and> it l = max 1 (max_iter s)
         \<and> int (solves (trace l)) = it l
         \<and> int (length (iterates l)) = it l
         \<and> sln_vector (instance_after (solve env s cv)) = Some (last (iterates l))"
    using l sm(4,5,7,8) mx distinct_allocated_by [of s] by auto
next
  assume h: "max_iter s = 1
        \<and> init_solving env s (num_dofs env) cv = Inr s1
        \<and> compute_candidate env s1 (setup_locals s1 (num_dofs env)) = (None, s2, l2)
        \<and> \<not> double_less (rel_error (the (sln_vector s2)) (last_iter_vector l2) (num_dofs env)) (tol s)"
  then have mx: "max_iter s \<le> 1" by simp
  from h first_iteration_stops [OF _ _ _ mx, of env cv s1 s2 l2]
  show "outcome (solve env s cv) = Some Maximum_iterations_exceeded"
    and "sln_vector (instance_after (solve env s cv)) = sln_vector s2"
    and "map_option iterates (locals_at_exit (solve env s cv)) = Some [the (sln_vector s2)]"
    by simp_all
next
  assume h: "init_solving env s (num_dofs env) cv = Inr s1
        \<and> loop_head env s1 (setup_locals s1 (num_dofs env)) n = Some (sh, lh)
        \<and> max_iter s \<le> it lh
        \<and> compute_candidate env sh lh = (None, sc, lc)
        \<and> \<not> double_less (rel_error (the (sln_vector sc)) (last_iter_vector lc) (num_dofs env)) (tol s)"
  from h last_iteration_stops [of env s cv s1 n sh lh sc lc]
  show "outcome (solve env s cv) = Some Maximum_iterations_exceeded"
    and "it lh = int n + 1"
    and "sln_vector (instance_after (solve env s cv)) = sln_vector sc"
    and "map_option iterates (locals_at_exit (solve env s cv)) = Some (iterates lc)"
    by simp_all
qed


theorem maximum_iterations_exceeded_witness:
  "(let s = fresh_solver\<lparr>max_iter := 1, tol := 1 / 10 ^ 9\<rparr>;
        s1 = s\<lparr>sln_vector := Some [0]\<rparr>;
        s2 = s\<lparr>jacobian_reusable := True, sln_vector := Some [3]\<rparr>;
        l2 = \<lparr>last_iter_vector = [0], previous_vectors = [], heap = (\<lambda>a. []),
               anderson_coeffs = [], it = 1, vec_in_memory = 1,
               trace = [Assemble_jacobian_and_residual,
                        Set_factorization_scheme HERMES_FACTORIZE_FROM_SCRATCH,
                        Matrix_solver_solve],
               iterates = [[3]], allocated = [Last_iter_vector], freed = []\<rparr>;
        r = solve scalar_env s None
    in max_iter s = 1
       \<and> init_solving scalar_env s (num_dofs scalar_env) None = Inr s1
       \<and> compute_candidate scalar_env s1 (setup_locals s1 (num_dofs scalar_env)) = (None, s2, l2)
       \<and> \<not> double_less (rel_error (the (sln_vector s2)) (last_iter_vector l2) (num_dofs scalar_env)) (tol s)
       \<and> outcome r = Some Maximum_iterations_exceeded
       \<and> sln_vector (instance_after r) = Some [3]
       \<and> map_option iterates (locals_at_exit r) = Some [[3]]
       \<and> (\<exists>l. locals_at_exit r = Some l
             \<and> allocated l = allocated_by s \<and> distinct (allocated l)
             \<and> mset (freed l) = mset (allocated l)
             \<and> it l = 1
             \<and> int (solves (trace l)) = it l
             \<and> int (length (iterates l)) = it l
             \<and> sln_vector (instance_after r) = Some (last (iterates l))))
   \<and> (let s = fresh_solver\<lparr>max_iter := 2, tol := 1 / 10 ^ 9\<rparr>;
        s1 = s\<lparr>sln_vector := Some [0]\<rparr>;
        sh = s\<lparr>jacobian_reusable := True, sln_vector := Some [3]\<rparr>;
        lh = \<lparr>last_iter_vector = [3], previous_vectors = [], heap = (\<lambda>a. []),
               anderson_coeffs = [], it = 2, vec_in_memory = 1,
               trace = [Assemble_jacobian_and_residual,
                        Set_factorization_scheme HERMES_FACTORIZE_FROM_SCRATCH,
                        Matrix_solver_solve, Info_starting_from_zero_vector 1 1],
               iterates = [[3]], allocated = [Last_iter_vector], freed = []\<rparr>;
        sc = s\<lparr>jacobian_reusable := True, sln_vector := Some [9 / 2]\<rparr>;
        lc = lh\<lparr>trace := trace lh @
                      [Set_factorization_scheme HERMES_REUSE_MATRIX_REORDERING_AND_SCALING,
                       Assemble_jacobian_and_residual, Matrix_solver_solve],
                 iterates := [[3], [9 / 2]]\<rparr>;
        r = solve scalar_env s None
    in init_solving scalar_env s (num_dofs scalar_env) None = Inr s1
       \<and> loop_head scalar_env s1 (setup_locals s1 (num_dofs scalar_env)) 1 = Some (sh, lh)
       \<and> max_iter s \<le> it lh
       \<and> compute_candidate scalar_env sh lh = (None, sc, lc)
       \<and> \<not> double_less (rel_error (the (sln_vector sc)) (last_iter_vector lc) (num_dofs scalar_env)) (tol s)
       \<and> outcome r = Some Maximum_iterations_exceeded
       \<and> it lh = int 1 + 1
       \<and> sln_vector (instance_after r) = Some [9 / 2]
       \<and> map_option iterates (locals_at_exit r) = Some [[3], [9 / 2]])"
proof -
  define s :: "real picard_solver" where "s = fresh_solver\<lparr>max_iter := 1, tol := 1 / 10 ^ 9\<rparr>"
  define s1 where "s1 = s\<lparr>sln_vector := Some [0]\<rparr>"
  define s2 where "s2 = s\<lparr>jacobian_reusable := True, sln_vector := Some [3]\<rparr>"
  define l2 :: "real locals" where "l2 = \<lparr>last_iter_vector = [0], previous_vectors = [], heap = (\<lambda>a. []),
               anderson_coeffs = [], it = 1, vec_in_memory = 1,
               trace = [Assemble_jacobian_and_residual,
                        Set_factorization_scheme HERMES_FACTORIZE_FROM_SCRATCH,
                        Matrix_solver_solve],
               iterates = [[3]], allocated = [Last_iter_vector], freed = []\<rparr>"
  have h1: "max_iter s = 1"
    by (simp add: s_def)
  have h2: "init_solving scalar_env s (num_dofs scalar_env) None = Inr s1"
    by (simp add: s_def s1_def run_defs)
  have h3: "compute_candidate scalar_env s1 (setup_locals s1 (num_dofs scalar_env)) = (None, s2, l2)"
    by (simp add: s_def s1_def s2_def l2_def run_defs)
  have h4: "\<not> double_less (rel_error (the (sln_vector s2)) (last_iter_vector l2) (num_dofs scalar_env)) (tol s)"
    by (simp add: s_def s2_def l2_def run_defs sqrt_9)
  note m = maximum_iterations_exceeded [of scalar_env s None s1 s2 l2]
  from m [THEN conjunct1] m [THEN conjunct2, THEN conjunct1] h1 h2 h3 h4
  have "outcome (solve scalar_env s None) = Some Maximum_iterations_exceeded
        \<and> sln_vector (instance_after (solve scalar_env s None)) = Some [3]
        \<and> map_option iterates (locals_at_exit (solve scalar_env s None)) = Some [[3]]
        \<and> (\<exists>l. locals_at_exit (solve scalar_env s None) = Some l
             \<and> allocated l = allocated_by s \<and> distinct (allocated l)
             \<and> mset (freed l) = mset (allocated l)
             \<and> it l = 1
             \<and> int (solves (trace l)) = it l
             \<and> int (length (iterates l)) = it l
             \<and> sln_vector (instance_after (solve scalar_env s None)) = Some (last (iterates l)))"
    by (auto simp: s2_def)
  with h1 h2 h3 h4 have first: "max_iter s = 1
       \<and> init_solving scalar_env s (num_dofs scalar_env) None = Inr s1
       \<and> compute_candidate scalar_env s1 (setup_locals s1 (num_dofs scalar_env)) = (None, s2, l2)
       \<and> \<not> double_less (rel_error (the (sln_vector s2)) (last_iter_vector l2) (num_dofs scalar_env)) (tol s)
       \<and> outcome (solve scalar_env s None) = Some Maximum_iterations_exceeded
       \<and> sln_vector (instance_after (solve scalar_env s None)) = Some [3]
       \<and> map_option iterates (locals_at_exit (solve scalar_env s None)) = Some [[3]]
       \<and> (\<exists>l. locals_at_exit (solve scalar_env s None) = Some l
             \<and> allocated l = allocated_by s \<and> distinct (allocated l)
             \<and> mset (freed l) = mset (allocated l)
             \<and> it l = 1
             \<and> int (solves (trace l)) = it l
             \<and> int (length (iterates l)) = it l
             \<and> sln_vector (instance_after (solve scalar_env s None)) = Some (last (iterates l)))"
    by blast
  define t :: "real picard_solver" where "t = fresh_solver\<lparr>max_iter := 2, tol := 1 / 10 ^ 9\<rparr>"
  define t1 where "t1 = t\<lparr>sln_vector := Some [0]\<rparr>"
  define sh where "sh = t\<lparr>jacobian_reusable := True, sln_vector := Some [3]\<rparr>"
  define lh :: "real locals" where "lh = \<lparr>last_iter_vector = [3], previous_vectors = [], heap = (\<lambda>a. []),
               anderson_coeffs = [], it = 2, vec_in_memory = 1,
               trace = [Assemble_jacobian_and_residual,
                        Set_factorization_scheme HERMES_FACTORIZE_FROM_SCRATCH,
                        Matrix_solver_solve, Info_starting_from_zero_vector 1 1],
               iterates = [[3]], allocated = [Last_iter_vector], freed = []\<rparr>"
  define sc where "sc = t\<lparr>jacobian_reusable := True, sln_vector := Some [9 / 2]\<rparr>"
  define lc where "lc = lh\<lparr>trace := trace lh @
                      [Set_factorization_scheme HERMES_REUSE_MATRIX_REORDERING_AND_SCALING,
                       Assemble_jacobian_and_residual, Matrix_solver_solve],
                 iterates := [[3], [9 / 2]]\<rparr>"
  have g1: "init_solving scalar_env t (num_dofs scalar_env) None = Inr t1"
    by (simp add: t_def t1_def run_defs)
  have g2: "loop_head scalar_env t1 (setup_locals t1 (num_dofs scalar_env)) 1 = Some (sh, lh)"
    by (simp add: t_def t1_def sh_def lh_def run_defs sqrt_9)
  have g3: "max_iter t \<le> it lh"
    by (simp add: t_def lh_def)
  have g4: "compute_candidate scalar_env sh lh = (None, sc, lc)"
    by (simp add: t_def sh_def lh_def sc_def lc_def run_defs)
  have g5: "\<not> double_less (rel_error (the (sln_vector sc)) (last_iter_vector lc) (num_dofs scalar_env)) (tol t)"
    by (simp add: t_def sc_def lc_def lh_def run_defs sqrt_9 real_sqrt_divide)
  note m' = maximum_iterations_exceeded [where env = scalar_env and s = t and cv = None
      and ?s1.0 = t1 and n = 1 and sh = sh and lh = lh and sc = sc and lc = lc]
  from m' [THEN conjunct2, THEN conjunct2] g1 g2 g3 g4 g5
  have "outcome (solve scalar_env t None) = Some Maximum_iterations_exceeded
       \<and> it lh = int 1 + 1
       \<and> sln_vector (instance_after (solve scalar_env t None)) = Some [9 / 2]
       \<and> map_option iterates (locals_at_exit (solve scalar_env t None)) = Some [[3], [9 / 2]]"
    by (auto simp: sc_def lc_def)
  with g1 g2 g3 g4 g5 have second: "init_solving scalar_env t (num_dofs scalar_env) None = Inr t1
       \<and> loop_head scalar_env t1 (setup_locals t1 (num_dofs scalar_env)) 1 = Some (sh, lh)
       \<and> max_iter t \<le> it lh
       \<and> compute_candidate scalar_env sh lh = (None, sc, lc)
       \<and> \<not> double_less (rel_error (the (sln_vector sc)) (last_iter_vector lc) (num_dofs scalar_env)) (tol t)
       \<and> outcome (solve scalar_env t None) = Some Maximum_iterations_exceeded
       \<and> it lh = int 1 + 1
       \<and> sln_vector (instance_after (solve scalar_env t None)) = Some [9 / 2]
       \<and> map_option iterates (locals_at_exit (solve scalar_env t None)) = Some [[3], [9 / 2]]"
    by blast
  from first second show ?thesis
    unfolding Let_def s_def [symmetric] s1_def [symmetric] s2_def [symmetric] l2_def [symmetric]
      t_def [symmetric] t1_def [symmetric] sh_def [symmetric] lh_def [symmetric]
      sc_def [symmetric] lc_def [symmetric]
    by blast
qed

subsection \<open>The relative error after a zero vector\<close>

lemma foldl_add_nonneg:
  fixes f :: "nat \<Rightarrow> real"
  assumes "\<And>i. 0 \<le> f i" and "0 \<le> a"
  shows "0 \<le> foldl (\<lambda>acc i. acc + f i) a xs"
  using assms(2) by (induction xs arbitrary: a) (simp_all add: assms(1))

lemma abs_error_nonneg: "0 \<le> abs_error sln v ndof"
  unfolding abs_error_def by (intro real_sqrt_ge_zero foldl_add_nonneg) simp_all

lemma rel_error_zero_norm:
  assumes "last_iter_vec_norm v ndof = 0"
  shows "rel_error sln v ndof = (if abs_error sln v ndof = 0 then NaN else Plus_infinity)"
  using assms abs_error_nonneg [of sln v ndof]
  by (simp add: rel_error_def double_div_def)

lemma zero_norm_never_converged:
  assumes "last_iter_vec_norm v ndof = 0"
  shows "\<not> double_less (rel_error sln v ndof) t"
  by (simp add: rel_error_zero_norm [OF assms])

text \<open>
  C1. The code has no branch for a previous iterate of norm zero: it divides, logs
  "starting from zero vector", and compares the quotient with \<open>tol\<close> all the same. From
  the zero vector with one degree of freedom, the candidate \<open>3\<close> gives \<open>3 / 0\<close>, an
  infinity, and the candidate \<open>0\<close> gives \<open>0 / 0\<close>, NaN. In the second case the absolute
  error is zero and the iteration still does not count as converged: a problem solved by
  its zero initial guess runs to the iteration limit (here two iterations).
\<close>

theorem relative_error_of_zero_vector:
  "rel_error [3 :: real] [0] 1 = Plus_infinity
   \<and> rel_error [0 :: real] [0] 1 = NaN
   \<and> (let r = solve (scalar_env\<lparr>matrix_solve := (\<lambda>it scheme v. Some v)\<rparr>)
                 (fresh_solver\<lparr>max_iter := 2\<rparr>) None
      in outcome r = Some Maximum_iterations_exceeded
         \<and> map_option iterates (locals_at_exit r) = Some [[0], [0]]
         \<and> map_option (filter (\<lambda>e. \<not> is_assembly e) \<circ> trace) (locals_at_exit r) =
              Some [Matrix_solver_solve, Info_starting_from_zero_vector 1 1,
                    Matrix_solver_solve, Info_starting_from_zero_vector 2 1,
                    Info_solution_duration])"
  by (simp add: run_defs picard_loop.simps sqrt_9)

subsection \<open>Releasing the arrays\<close>

lemma released_on_return:
  assumes "outcome (solve env s cv) = None
           \<or> outcome (solve env s cv) = Some Maximum_iterations_exceeded"
  shows "\<exists>l. locals_at_exit (solve env s cv) = Some l
           \<and> allocated l = allocated_by s \<and> distinct (allocated l)
           \<and> mset (freed l) = mset (allocated l)"
proof -
  obtain l where l: "locals_at_exit (solve env s cv) = Some l"
    using solve_mid_solve_outcome [of env s cv] assms
    by (cases "locals_at_exit (solve env s cv)")
       (auto simp: init_solving_def check_def isOkay_def split: option.splits if_splits sum.splits)
  from solve_summary(4,7) [OF l] assms l distinct_allocated_by [of s]
  show ?thesis by auto
qed

lemma nothing_released_on_throw:
  assumes "outcome (solve env s cv) = Some LinearMatrixSolverException
           \<or> outcome (solve env s cv) = Some Anderson_needs_two_iterations"
  shows "\<exists>l. locals_at_exit (solve env s cv) = Some l
           \<and> allocated l = allocated_by s \<and> Last_iter_vector \<in> set (allocated l)
           \<and> freed l = []"
proof -
  obtain l where l: "locals_at_exit (solve env s cv) = Some l"
    using solve_mid_solve_outcome [of env s cv] assms
    by (cases "locals_at_exit (solve env s cv)")
       (auto simp: init_solving_def check_def isOkay_def split: option.splits if_splits sum.splits)
  from solve_summary(4,7) [OF l] assms l
  show ?thesis by (auto simp: allocated_by_def)
qed

text \<open>
  C2. When the matrix solver fails, \<^verbatim>\<open>solve\<close> throws at once: with Anderson acceleration
  on and the default depth of three, the six arrays allocated before the loop are all
  still allocated when the exception leaves \<^verbatim>\<open>solve\<close>.
\<close>

theorem linear_solve_failure_leaks:
  "(let r = solve (scalar_env\<lparr>matrix_solve := (\<lambda>it scheme v. None)\<rparr>)
              (fresh_solver\<lparr>anderson_is_on := True\<rparr>) None
    in outcome r = Some LinearMatrixSolverException
       \<and> map_option allocated (locals_at_exit r) =
            Some [Last_iter_vector, Previous_vectors_array, Previous_vector 0,
                  Previous_vector 1, Previous_vector 2, Anderson_coeffs]
       \<and> map_option freed (locals_at_exit r) = Some [])"
  by (simp add: run_defs picard_loop.simps numeral_3_eq_3)

subsection \<open>Configuration errors\<close>

lemma init_solving_cases:
  "init_solving env s ndof cv =
     (if \<not> nonlinear_solver_isOkay env then Inl Instance_not_okay
      else if num_last_vectors_used s < 1 then Inl Bad_number_of_last_iterations
      else Inr (s\<lparr>sln_vector :=
                 Some (case cv of None \<Rightarrow> replicate ndof 0 | Some v \<Rightarrow> take ndof v)\<rparr>))"
  by (simp add: init_solving_def check_def isOkay_def)

lemma anderson_exception_config:
  assumes "outcome (solve env s cv) = Some Anderson_needs_two_iterations"
  shows "anderson_is_on s \<and> num_last_vectors_used s = 1 \<and> nonlinear_solver_isOkay env"
proof (cases "init_solving env s (num_dofs env) cv")
  case (Inl e)
  with assms show ?thesis
    by (auto simp: solve_def init_solving_cases split: if_splits)
next
  case (Inr s1)
  note i = init_solving_Inr [OF Inr]
  from solve_exit [OF Inr] obtain s' l' where inv: "loop_inv s1 s' l'"
    and ex: "iteration env s' l' = Inl (solve env s cv)"
    by blast
  from inv have cfg: "same_config s1 s'" by (simp add: loop_inv_def)
  from ex show ?thesis
  proof (cases rule: iteration_Inl_cases)
    case (throw e s2 l2)
    with assms have "e = Anderson_needs_two_iterations" by simp
    with compute_candidate_throw [OF throw(1)]
    have "anderson_is_on s'" "num_last_vectors_used s' \<le> 1" by auto
    with cfg i show ?thesis
      by (simp add: same_config_def)
  next
    case (stop s2 l2)
    from finish_iteration_Inl(3) [OF stop(2)] assms show ?thesis by simp
  qed
qed

lemma store_vector_count:
  "vec_in_memory (store_vector l m ndof v) =
     (if vec_in_memory l < m then vec_in_memory l + 1 else vec_in_memory l)"
  by (simp add: store_vector_def Let_def)

lemma compute_candidate_depth_one:
  assumes "anderson_is_on s" and "num_last_vectors_used s \<le> 1" and "1 \<le> vec_in_memory l"
  shows "fst (compute_candidate env s l) =
           (case matrix_solve env (it l) (scheme_of s) (last_iter_vector l) of
              None \<Rightarrow> Some LinearMatrixSolverException
            | Some x \<Rightarrow> Some Anderson_needs_two_iterations)"
proof (cases "matrix_solve env (it l) (scheme_of s) (last_iter_vector l)")
  case None
  then show ?thesis
    by (simp add: compute_candidate_def assemble_step_eq Let_def)
next
  case (Some x)
  have cnt: "num_last_vectors_used s \<le> vec_in_memory (store_vector (l\<lparr>trace := tr\<rparr>)
      (num_last_vectors_used s) ndof v)" for tr ndof v
    using assms(2,3) by (simp add: store_vector_count)
  have "calculate_anderson_coeffs env pv c (num_last_vectors_used s) ndof
          = Inl Anderson_needs_two_iterations" for pv c ndof
    using assms(2) by (simp add: calculate_anderson_coeffs_def)
  then show ?thesis
    using Some assms(1) cnt
    by (simp add: compute_candidate_def assemble_step_eq Let_def)
qed

lemma depth_one_first_iteration:
  assumes on: "anderson_is_on s" and one: "num_last_vectors_used s = 1"
    and ok: "nonlinear_solver_isOkay env"
    and x0: "x0 = (case cv of None \<Rightarrow> replicate (num_dofs env) 0 | Some v \<Rightarrow> take (num_dofs env) v)"
  shows "outcome (solve env s cv) =
           (case matrix_solve env 1 (scheme_of s) x0 of
              None \<Rightarrow> Some LinearMatrixSolverException
            | Some x \<Rightarrow> Some Anderson_needs_two_iterations)"
    and "\<exists>l. locals_at_exit (solve env s cv) = Some l \<and> it l = 1 \<and> solves (trace l) = 1"
proof -
  define s1 where "s1 = s\<lparr>sln_vector := Some x0\<rparr>"
  have init: "init_solving env s (num_dofs env) cv = Inr s1"
    using one ok by (simp add: init_solving_cases s1_def x0)
  have tk: "take (num_dofs env) x0 = x0"
    by (simp add: x0 split: option.splits)
  have sch: "scheme_of s1 = scheme_of s"
    by (simp add: s1_def scheme_of_def)
  obtain r s2 l2 where cc: "compute_candidate env s1 (setup_locals s1 (num_dofs env)) = (r, s2, l2)"
    by (cases "compute_candidate env s1 (setup_locals s1 (num_dofs env))")
  have l0: "it (setup_locals s1 (num_dofs env)) = 1"
    "vec_in_memory (setup_locals s1 (num_dofs env)) = 1"
    "last_iter_vector (setup_locals s1 (num_dofs env)) = x0"
    "trace (setup_locals s1 (num_dofs env)) = []"
    using tk by (simp_all add: setup_locals_def Let_def s1_def)
  have "anderson_is_on s1" "num_last_vectors_used s1 \<le> 1"
    using on one by (simp_all add: s1_def)
  from compute_candidate_depth_one [OF this, of "setup_locals s1 (num_dofs env)" env] cc l0 sch
  have r: "r = (case matrix_solve env 1 (scheme_of s) x0 of
              None \<Rightarrow> Some LinearMatrixSolverException
            | Some x \<Rightarrow> Some Anderson_needs_two_iterations)"
    by simp
  then obtain e where e: "r = Some e" by (auto split: option.splits)
  have run: "solve env s cv = \<lparr>outcome = Some e, instance_after = s2, locals_at_exit = Some l2\<rparr>"
    using init cc e by (simp add: solve_def picard_loop.simps iteration_def)
  show "outcome (solve env s cv) =
           (case matrix_solve env 1 (scheme_of s) x0 of
              None \<Rightarrow> Some LinearMatrixSolverException
            | Some x \<Rightarrow> Some Anderson_needs_two_iterations)"
    using run r e by simp
  have "it l2 = 1" "solves (trace l2) = 1"
    using compute_candidate_locals(1,5) [OF cc] l0 by simp_all
  then show "\<exists>l. locals_at_exit (solve env s cv) = Some l \<and> it l = 1 \<and> solves (trace l) = 1"
    using run by simp
qed

text \<open>
  C3, as the code has it (the base class accepting the instance). A history depth below
  one makes \<^verbatim>\<open>solve\<close> throw from the validation at its start, with the instance
  untouched and nothing allocated, assembled or solved; this exception never comes later.
  A depth of one with Anderson acceleration on passes the validation; then
  \<^verbatim>\<open>calculate_anderson_coeffs\<close> throws in the first iteration, after the first linear
  solve, provided that solve succeeds, and this is the only way its exception arises.
\<close>

theorem configuration_errors:
  assumes "nonlinear_solver_isOkay env"
  shows "(num_last_vectors_used s < 1 \<longrightarrow>
            solve env s cv =
              \<lparr>outcome = Some Bad_number_of_last_iterations, instance_after = s,
               locals_at_exit = None\<rparr>)
         \<and> (outcome (solve env s cv) = Some Bad_number_of_last_iterations \<longrightarrow>
              num_last_vectors_used s < 1 \<and> locals_at_exit (solve env s cv) = None)
         \<and> (outcome (solve env s cv) = Some Anderson_needs_two_iterations \<longleftrightarrow>
              anderson_is_on s \<and> num_last_vectors_used s = 1
              \<and> matrix_solve env 1 (scheme_of s)
                   (case cv of None \<Rightarrow> replicate (num_dofs env) 0
                    | Some v \<Rightarrow> take (num_dofs env) v) \<noteq> None)
         \<and> (outcome (solve env s cv) = Some Anderson_needs_two_iterations \<longrightarrow>
              (\<exists>l. locals_at_exit (solve env s cv) = Some l \<and> it l = 1 \<and> solves (trace l) = 1))"
proof (intro conjI impI)
  assume "num_last_vectors_used s < 1"
  then show "solve env s cv =
              \<lparr>outcome = Some Bad_number_of_last_iterations, instance_after = s,
               locals_at_exit = None\<rparr>"
    using assms by (simp add: solve_def init_solving_cases)
next
  assume bad: "outcome (solve env s cv) = Some Bad_number_of_last_iterations"
  show "num_last_vectors_used s < 1"
  proof (rule ccontr)
    assume "\<not> num_last_vectors_used s < 1"
    then have init: "init_solving env s (num_dofs env) cv = Inr (s\<lparr>sln_vector :=
                 Some (case cv of None \<Rightarrow> replicate (num_dofs env) 0 | Some v \<Rightarrow> take (num_dofs env) v)\<rparr>)"
      using assms by (simp add: init_solving_cases)
    from solve_exit [OF init] obtain s' l' where
      ex: "iteration env s' l' = Inl (solve env s cv)"
      by blast
    from ex bad show False
    proof (cases rule: iteration_Inl_cases)
      case (throw e s2 l2)
      with compute_candidate_throw [OF throw(1)] bad show False by auto
    next
      case (stop s2 l2)
      from finish_iteration_Inl(3) [OF stop(2)] bad show False by simp
    qed
  qed
  then show "locals_at_exit (solve env s cv) = None"
    using assms by (simp add: solve_def init_solving_cases)
next
  show "outcome (solve env s cv) = Some Anderson_needs_two_iterations \<longleftrightarrow>
              anderson_is_on s \<and> num_last_vectors_used s = 1
              \<and> matrix_solve env 1 (scheme_of s)
                   (case cv of None \<Rightarrow> replicate (num_dofs env) 0
                    | Some v \<Rightarrow> take (num_dofs env) v) \<noteq> None"
    using anderson_exception_config [of env s cv]
      depth_one_first_iteration(1) [OF _ _ assms refl, of s cv]
    by (auto split: option.splits)
next
  assume "outcome (solve env s cv) = Some Anderson_needs_two_iterations"
  from anderson_exception_config [OF this]
  show "\<exists>l. locals_at_exit (solve env s cv) = Some l \<and> it l = 1 \<and> solves (trace l) = 1"
    using depth_one_first_iteration(2) [OF _ _ assms refl, of s cv] by simp
qed

theorem configuration_errors_witness:
  "nonlinear_solver_isOkay scalar_env
   \<and> num_last_vectors_used (set_num_last_vector_used fresh_solver 0 :: real picard_solver) < 1
   \<and> solve scalar_env (set_num_last_vector_used fresh_solver 0) None =
        \<lparr>outcome = Some Bad_number_of_last_iterations,
         instance_after = set_num_last_vector_used fresh_solver 0, locals_at_exit = None\<rparr>
   \<and> anderson_is_on
        (use_Anderson_acceleration (set_num_last_vector_used fresh_solver 1) True :: real picard_solver)
   \<and> num_last_vectors_used
        (use_Anderson_acceleration (set_num_last_vector_used fresh_solver 1) True :: real picard_solver) = 1
   \<and> matrix_solve scalar_env 1
        (scheme_of
           (use_Anderson_acceleration (set_num_last_vector_used fresh_solver 1) True :: real picard_solver))
        (replicate (num_dofs scalar_env) 0) \<noteq> None
   \<and> outcome (solve scalar_env
         (use_Anderson_acceleration (set_num_last_vector_used fresh_solver 1) True) None)
        = Some Anderson_needs_two_iterations
   \<and> (\<exists>l. locals_at_exit (solve scalar_env
               (use_Anderson_acceleration (set_num_last_vector_used fresh_solver 1) True) None)
            = Some l \<and> it l = 1 \<and> solves (trace l) = 1)"
proof -
  have ok: "nonlinear_solver_isOkay scalar_env"
    by (simp add: scalar_env_def)
  have ms: "matrix_solve scalar_env 1 sch v \<noteq> None" for sch v
    by (simp add: scalar_env_def)
  from configuration_errors [OF ok, of "set_num_last_vector_used fresh_solver 0" None]
    configuration_errors [OF ok,
      of "use_Anderson_acceleration (set_num_last_vector_used fresh_solver 1) True" None]
  show ?thesis
    using ok ms
    by (simp add: fresh_solver_def init_picard_def set_num_last_vector_used_def
        use_Anderson_acceleration_def)
qed

text \<open>
  With Anderson acceleration switched on and a depth of one, neither the setters nor the
  validation object; the exception comes out of the first iteration, after the assembly
  and the linear solve.
\<close>

theorem anderson_depth_one_raises_in_first_iteration:
  "(let s = use_Anderson_acceleration (set_num_last_vector_used fresh_solver 1) True;
        r = solve scalar_env s None
    in isOkay scalar_env s = Inr True \<and> check scalar_env s = None
       \<and> outcome r = Some Anderson_needs_two_iterations
       \<and> map_option trace (locals_at_exit r) =
            Some [Assemble_jacobian_and_residual,
                  Set_factorization_scheme HERMES_FACTORIZE_FROM_SCRATCH,
                  Matrix_solver_solve])"
  by (simp add: run_defs picard_loop.simps calculate_anderson_coeffs_def shift_pointers_def
      set_num_last_vector_used_def use_Anderson_acceleration_def)

section \<open>Anderson acceleration with two vectors\<close>

lemma foldl_update_same:
  "foldl (\<lambda>s i. s[i := f i]) xs js = xs" if "\<And>i. f i = xs ! i"
  by (induction js) (simp_all add: that)

lemma shift_pointers_length: "length (shift_pointers pv m) = length pv"
proof -
  have "length (foldl (\<lambda>p i. p[i := p ! (i + 1)]) pv js) = length pv" for js
    by (induction js arbitrary: pv) simp_all
  then show ?thesis by (simp add: shift_pointers_def Let_def)
qed

lemma store_vector_newest:
  assumes "length (previous_vectors l) = 2" and "1 \<le> vec_in_memory l"
  shows "length (previous_vectors (store_vector l 2 ndof v)) = 2"
    and "deref (store_vector l 2 ndof v) ! 1 = take ndof v"
    and "2 \<le> vec_in_memory (store_vector l 2 ndof v)"
proof -
  show "length (previous_vectors (store_vector l 2 ndof v)) = 2"
    using assms(1) by (simp add: store_vector_def Let_def shift_pointers_length)
  show "2 \<le> vec_in_memory (store_vector l 2 ndof v)"
    using assms(2) by (simp add: store_vector_count)
  show "deref (store_vector l 2 ndof v) ! 1 = take ndof v"
  proof (cases "vec_in_memory l < 2")
    case True
    with assms(2) have "nat (vec_in_memory l) = 1" by simp
    then show ?thesis
      using True assms(1) by (simp add: store_vector_def deref_def)
  next
    case False
    then show ?thesis
      using assms(1) by (simp add: store_vector_def deref_def Let_def shift_pointers_length)
  qed
qed

lemma mix_depth_two:
  assumes "pv ! 1 = sln"
  shows "anderson_mix pv [1] 1 2 ndof sln = sln"
proof -
  have "mixed_entry pv [1] 1 2 i = sln ! i" for i
    using assms by (simp add: mixed_entry_sum numeral_2_eq_2)
  then show ?thesis
    unfolding anderson_mix_def by (rule foldl_update_same)
qed

lemma compute_candidate_plain:
  assumes "\<not> anderson_is_on s"
  shows "compute_candidate env s l =
     (case matrix_solve env (it l) (scheme_of s) (last_iter_vector l) of
        None \<Rightarrow> (Some LinearMatrixSolverException, s\<lparr>jacobian_reusable := True\<rparr>,
                 l\<lparr>trace := trace l @ (if jacobian_reusable s then reuse_block s else scratch_block)
                              @ [Matrix_solver_solve]\<rparr>)
      | Some x \<Rightarrow> (None, s\<lparr>jacobian_reusable := True, sln_vector := Some (take (num_dofs env) x)\<rparr>,
                  l\<lparr>trace := trace l @ (if jacobian_reusable s then reuse_block s else scratch_block)
                              @ [Matrix_solver_solve],
                    iterates := iterates l @ [take (num_dofs env) x]\<rparr>))"
  using assms
  by (simp add: compute_candidate_def assemble_step_eq Let_def split: option.splits)

lemma compute_candidate_depth_two:
  assumes "depth_two s l"
  shows "compute_candidate env s l =
     (case matrix_solve env (it l) (scheme_of s) (last_iter_vector l) of
        None \<Rightarrow> (Some LinearMatrixSolverException, s\<lparr>jacobian_reusable := True\<rparr>,
                 l\<lparr>trace := trace l @ (if jacobian_reusable s then reuse_block s else scratch_block)
                              @ [Matrix_solver_solve]\<rparr>)
      | Some x \<Rightarrow> (None, s\<lparr>jacobian_reusable := True, sln_vector := Some (take (num_dofs env) x)\<rparr>,
                  (store_vector
                     (l\<lparr>trace := trace l @ (if jacobian_reusable s then reuse_block s else scratch_block)
                              @ [Matrix_solver_solve]\<rparr>) 2 (num_dofs env) (take (num_dofs env) x))
                   \<lparr>anderson_coeffs := [1],
                    iterates := iterates l @ [take (num_dofs env) x]\<rparr>))"
proof (cases "matrix_solve env (it l) (scheme_of s) (last_iter_vector l)")
  case None
  then show ?thesis
    by (simp add: compute_candidate_def assemble_step_eq Let_def)
next
  case (Some x)
  define tr where "tr = trace l @ (if jacobian_reusable s then reuse_block s else scratch_block)
                              @ [Matrix_solver_solve]"
  define l3 where "l3 = store_vector (l\<lparr>trace := tr\<rparr>) 2 (num_dofs env) (take (num_dofs env) x)"
  from assms have on: "anderson_is_on s" and m: "num_last_vectors_used s = 2"
    and beta: "anderson_beta s = 1" and len: "length (previous_vectors (l\<lparr>trace := tr\<rparr>)) = 2"
    and vec: "1 \<le> vec_in_memory (l\<lparr>trace := tr\<rparr>)" and c: "length (anderson_coeffs l) = 1"
    by (simp_all add: depth_two_def)
  note sv = store_vector_newest [OF len vec, of "num_dofs env" "take (num_dofs env) x", folded l3_def]
  obtain c0 where c0: "anderson_coeffs l3 = [c0]"
    using c by (cases "anderson_coeffs l") (simp_all add: l3_def store_vector_fields)
  have coeffs: "calculate_anderson_coeffs env (deref l3) (anderson_coeffs l3) 2 (num_dofs env) = Inr [1]"
    by (simp add: calculate_anderson_coeffs_two c0)
  have mix: "anderson_mix (deref l3) [1] 1 2 (num_dofs env) (take (num_dofs env) x) = take (num_dofs env) x"
    using sv(2) by (intro mix_depth_two) simp
  have its: "iterates l3 = iterates l"
    by (simp add: l3_def store_vector_fields)
  show ?thesis
    using Some on m beta sv(3) coeffs mix its
    by (simp add: compute_candidate_def assemble_step_eq Let_def tr_def [symmetric] l3_def [symmetric])
qed


lemma finish_iteration_sim:
  assumes "tol sp = tol s" and "max_iter sp = max_iter s" and "sln_vector sp = sln_vector s"
    and "last_iter_vector lp = last_iter_vector l" and "it lp = it l"
    and "trace lp = trace l" and "iterates lp = iterates l"
  shows "case finish_iteration env s l of
           Inl r \<Rightarrow> (\<exists>p. finish_iteration env sp lp = Inl p \<and> outcome p = outcome r
                       \<and> instance_after p = sp \<and> instance_after r = s
                       \<and> map_option iterates (locals_at_exit p) = map_option iterates (locals_at_exit r)
                       \<and> map_option trace (locals_at_exit p) = map_option trace (locals_at_exit r))
         | Inr (s', l') \<Rightarrow> s' = s
              \<and> (\<exists>lp'. finish_iteration env sp lp = Inr (sp, lp')
                    \<and> last_iter_vector lp' = last_iter_vector l' \<and> it lp' = it l'
                    \<and> trace lp' = trace l' \<and> iterates lp' = iterates l'
                    \<and> previous_vectors l' = previous_vectors l
                    \<and> vec_in_memory l' = vec_in_memory l
                    \<and> anderson_coeffs l' = anderson_coeffs l)"
  using assms unfolding finish_iteration_def Let_def
  by (simp add: release_fields)

lemma iteration_sim:
  assumes d: "depth_two s l" and r: "same_iteration s l sp lp"
  shows "case iteration env s l of
           Inl r \<Rightarrow> (\<exists>p. iteration env sp lp = Inl p \<and> same_run r p)
         | Inr (s', l') \<Rightarrow>
             (\<exists>sp' lp'. iteration env sp lp = Inr (sp', lp')
                 \<and> depth_two s' l' \<and> same_iteration s' l' sp' lp')"
proof -
  from r have sp: "sp = s\<lparr>anderson_is_on := False\<rparr>"
    and lp: "last_iter_vector lp = last_iter_vector l" "it lp = it l"
      "trace lp = trace l" "iterates lp = iterates l"
    by (simp_all add: same_iteration_def)
  have off: "\<not> anderson_is_on sp" and sch: "scheme_of sp = scheme_of s"
    and jr: "jacobian_reusable sp = jacobian_reusable s" and rb: "reuse_block sp = reuse_block s"
    by (simp_all add: sp scheme_of_def reuse_block_def)
  define tr where "tr = trace l @ (if jacobian_reusable s then reuse_block s else scratch_block)
                              @ [Matrix_solver_solve]"
  show ?thesis
  proof (cases "matrix_solve env (it l) (scheme_of s) (last_iter_vector l)")
    case None
    have it1: "iteration env s l = Inl \<lparr>outcome = Some LinearMatrixSolverException,
        instance_after = s\<lparr>jacobian_reusable := True\<rparr>, locals_at_exit = Some (l\<lparr>trace := tr\<rparr>)\<rparr>"
      using None by (simp add: iteration_def compute_candidate_depth_two [OF d] tr_def)
    have it2: "iteration env sp lp = Inl \<lparr>outcome = Some LinearMatrixSolverException,
        instance_after = sp\<lparr>jacobian_reusable := True\<rparr>, locals_at_exit = Some (lp\<lparr>trace := tr\<rparr>)\<rparr>"
      using None lp sch jr rb
      by (simp add: iteration_def compute_candidate_plain [OF off] tr_def)
    show ?thesis
      unfolding it1 it2 using lp by (simp add: same_run_def sp)
  next
    case (Some x)
    define sln where "sln = take (num_dofs env) x"
    define s1 where "s1 = s\<lparr>jacobian_reusable := True, sln_vector := Some sln\<rparr>"
    define l1 where "l1 = (store_vector (l\<lparr>trace := tr\<rparr>) 2 (num_dofs env) sln)
                   \<lparr>anderson_coeffs := [1], iterates := iterates l @ [sln]\<rparr>"
    define sp1 where "sp1 = sp\<lparr>jacobian_reusable := True, sln_vector := Some sln\<rparr>"
    define lp1 where "lp1 = lp\<lparr>trace := tr, iterates := iterates l @ [sln]\<rparr>"
    have it1: "iteration env s l = finish_iteration env s1 l1"
      using Some
      by (simp add: iteration_def compute_candidate_depth_two [OF d] s1_def l1_def sln_def tr_def)
    have it2: "iteration env sp lp = finish_iteration env sp1 lp1"
      using Some lp sch jr rb
      by (simp add: iteration_def compute_candidate_plain [OF off] sp1_def lp1_def sln_def tr_def)
    have sp1: "sp1 = s1\<lparr>anderson_is_on := False\<rparr>"
      by (simp add: sp1_def s1_def sp)
    have len: "length (previous_vectors (l\<lparr>trace := tr\<rparr>)) = 2"
      and vec: "1 \<le> vec_in_memory (l\<lparr>trace := tr\<rparr>)"
      using d by (simp_all add: depth_two_def)
    note sv = store_vector_newest(1,3) [OF len vec, of "num_dofs env" sln]
    have d1: "anderson_is_on s1 \<and> num_last_vectors_used s1 = 2 \<and> anderson_beta s1 = 1
              \<and> length (previous_vectors l1) = 2 \<and> 1 \<le> vec_in_memory l1
              \<and> length (anderson_coeffs l1) = 1"
      using d sv by (simp add: depth_two_def s1_def l1_def)
    have eqs: "tol sp1 = tol s1" "max_iter sp1 = max_iter s1" "sln_vector sp1 = sln_vector s1"
      "last_iter_vector lp1 = last_iter_vector l1" "it lp1 = it l1"
      "trace lp1 = trace l1" "iterates lp1 = iterates l1"
      using lp by (simp_all add: sp1 l1_def lp1_def store_vector_fields)
    from finish_iteration_sim [OF eqs, of env] show ?thesis
      unfolding it1 it2
      using d1 sp1
      by (auto simp: same_run_def same_iteration_def depth_two_def split: sum.splits)
  qed
qed

lemma picard_loop_sim:
  assumes "depth_two s l" and "same_iteration s l sp lp"
  shows "same_run (picard_loop env s l) (picard_loop env sp lp)"
  using assms
proof (induction env s l arbitrary: sp lp rule: picard_loop.induct)
  case (1 env s l)
  note sim = iteration_sim [OF "1.prems", of env]
  show ?case
  proof (cases "iteration env s l")
    case (Inl r)
    with sim obtain p where "iteration env sp lp = Inl p" "same_run r p"
      by auto
    with Inl show ?thesis by simp
  next
    case (Inr x)
    obtain s' l' where x: "x = (s', l')" by (cases x)
    with Inr sim obtain sp' lp' where p: "iteration env sp lp = Inr (sp', lp')"
      and d': "depth_two s' l'" and r': "same_iteration s' l' sp' lp'"
      by auto
    from "1.IH" [OF Inr x [symmetric] d' r'] Inr x p show ?thesis
      by simp
  qed
qed


lemma solve_depth_two:
  assumes "anderson_is_on s" and "num_last_vectors_used s = 2" and "anderson_beta s = 1"
  shows "same_run (solve env s cv) (solve env (s\<lparr>anderson_is_on := False\<rparr>) cv)"
proof (cases "nonlinear_solver_isOkay env")
  case False
  then show ?thesis
    by (simp add: solve_def init_solving_cases same_run_def)
next
  case True
  define x0 where "x0 = (case cv of None \<Rightarrow> replicate (num_dofs env) 0
                          | Some v \<Rightarrow> take (num_dofs env) v)"
  define s1 where "s1 = s\<lparr>sln_vector := Some x0\<rparr>"
  have i1: "init_solving env s (num_dofs env) cv = Inr s1"
    using True assms(2) by (simp add: init_solving_cases s1_def x0_def)
  have i2: "init_solving env (s\<lparr>anderson_is_on := False\<rparr>) (num_dofs env) cv
              = Inr (s1\<lparr>anderson_is_on := False\<rparr>)"
    using True assms(2) by (simp add: init_solving_cases s1_def x0_def)
  have "depth_two s1 (setup_locals s1 (num_dofs env))"
    using assms by (simp add: depth_two_def s1_def setup_locals_def Let_def)
  moreover have "same_iteration s1 (setup_locals s1 (num_dofs env))
      (s1\<lparr>anderson_is_on := False\<rparr>) (setup_locals (s1\<lparr>anderson_is_on := False\<rparr>) (num_dofs env))"
    using assms by (simp add: same_iteration_def s1_def setup_locals_def Let_def)
  ultimately have "same_run (picard_loop env s1 (setup_locals s1 (num_dofs env)))
      (picard_loop env (s1\<lparr>anderson_is_on := False\<rparr>)
         (setup_locals (s1\<lparr>anderson_is_on := False\<rparr>) (num_dofs env)))"
    by (rule picard_loop_sim)
  then show ?thesis
    using i1 i2 by (simp add: solve_def del: picard_loop.simps)
qed

text \<open>
  C10. With Anderson acceleration on, a history depth of two and \<open>beta = 1\<close>: the
  coefficient computation returns the single coefficient \<open>1\<close>; mixing a history whose
  newest vector is the candidate returns the candidate; and a call of \<^verbatim>\<open>solve\<close> ends
  as the same call with acceleration off does, with the same outcome, the same
  \<open>sln_vector\<close>, the same sequence of iterates and the same calls to the assembler and
  the matrix solver. (Exact arithmetic.)
\<close>

theorem anderson_depth_two_is_plain_picard:
  assumes "anderson_is_on s" and "num_last_vectors_used s = 2" and "anderson_beta s = 1"
  shows "calculate_anderson_coeffs env pv [c0] (num_last_vectors_used s) ndof = Inr [1]
         \<and> anderson_mix [pv0, sln] [1] (anderson_beta s) (num_last_vectors_used s) ndof sln = sln
         \<and> outcome (solve env s cv) = outcome (solve env (s\<lparr>anderson_is_on := False\<rparr>) cv)
         \<and> sln_vector (instance_after (solve env s cv))
             = sln_vector (instance_after (solve env (s\<lparr>anderson_is_on := False\<rparr>) cv))
         \<and> map_option iterates (locals_at_exit (solve env s cv))
             = map_option iterates (locals_at_exit (solve env (s\<lparr>anderson_is_on := False\<rparr>) cv))
         \<and> map_option trace (locals_at_exit (solve env s cv))
             = map_option trace (locals_at_exit (solve env (s\<lparr>anderson_is_on := False\<rparr>) cv))"
  using solve_depth_two [OF assms, of env cv] assms(2,3)
  by (simp add: same_run_def calculate_anderson_coeffs_two mix_depth_two)

theorem anderson_depth_two_is_plain_picard_witness:
  "(let s = use_Anderson_acceleration
              (set_num_last_vector_used (set_picard_max_iter fresh_solver 2) 2) True
    in anderson_is_on s \<and> num_last_vectors_used s = 2 \<and> anderson_beta s = 1
       \<and> calculate_anderson_coeffs scalar_env [[0], [3]] [0] (num_last_vectors_used s) 1 = Inr [1]
       \<and> anderson_mix [[0], [3]] [1] (anderson_beta s) (num_last_vectors_used s) 1 [3] = [3]
       \<and> outcome (solve scalar_env s None) = Some Maximum_iterations_exceeded
       \<and> sln_vector (instance_after (solve scalar_env s None)) = Some [9 / 2]
       \<and> map_option iterates (locals_at_exit (solve scalar_env s None)) = Some [[3], [9 / 2]]
       \<and> map_option trace (locals_at_exit (solve scalar_env s None))
            = map_option trace (locals_at_exit (solve scalar_env (fresh_solver\<lparr>max_iter := 2\<rparr>) None)))"
proof -
  define s :: "real picard_solver" where
    "s = use_Anderson_acceleration (set_num_last_vector_used (set_picard_max_iter fresh_solver 2) 2) True"
  have h: "anderson_is_on s" "num_last_vectors_used s = 2" "anderson_beta s = 1"
    by (simp_all add: s_def use_Anderson_acceleration_def set_num_last_vector_used_def
        set_picard_max_iter_def fresh_solver_def init_picard_def)
  have off: "s\<lparr>anderson_is_on := False\<rparr> = fresh_solver\<lparr>max_iter := 2\<rparr>\<lparr>num_last_vectors_used := 2\<rparr>"
    by (simp add: s_def use_Anderson_acceleration_def set_num_last_vector_used_def
        set_picard_max_iter_def fresh_solver_def init_picard_def)
  have plain: "solve scalar_env (s\<lparr>anderson_is_on := False\<rparr>) None =
     \<lparr>outcome = Some Maximum_iterations_exceeded,
      instance_after = (s\<lparr>anderson_is_on := False, jacobian_reusable := True, sln_vector := Some [9 / 2]\<rparr>),
      locals_at_exit = locals_at_exit (solve scalar_env (fresh_solver\<lparr>max_iter := 2\<rparr>) None)\<rparr>"
    unfolding off scalar_two_iterations
    by (simp add: run_defs picard_loop.simps sqrt_9 real_sqrt_divide)
  from anderson_depth_two_is_plain_picard [OF h, of scalar_env "[[0], [3]]" 0 1 "[0]" "[3]" None]
  show ?thesis
    unfolding Let_def s_def [symmetric]
    using h by (simp add: plain scalar_two_iterations)
qed

end
